theory Spec2Isabelle
  imports Main "HOL-Library.Word"
begin

unbundle bit_operations_syntax

section \<open>Numbers and the modular helpers\<close>

text \<open>
  The repository holds three copies of one program. Two of them
  (\<^verbatim>\<open>rlweBTCETH3.js\<close> and the first copy in \<^verbatim>\<open>rlweBTCETH2.js\<close>) do their modular
  arithmetic with the \<^verbatim>\<open>big-integer\<close> package, the third one (the second copy in
  \<^verbatim>\<open>rlweBTCETH2.js\<close>, which also has \<^verbatim>\<open>validateParameters\<close>) with native numbers.
  Everything else in the three copies (tables, transforms, key exchange, entropy) is the
  same text, so the model takes the copy as a parameter of type \<open>helpers\<close>.

  All numbers the program handles are integers far below \<open>2^53\<close>, where JavaScript
  numbers are exact, so they are modelled as \<open>int\<close> (values) and \<open>nat\<close> (loop counters
  that only count upwards from a non-negative start or are halved). The shifts
  \<^verbatim>\<open>m << 1\<close> and \<^verbatim>\<open>m >> 1\<close> act on counters between \<open>0\<close> and \<open>2n = 2048\<close>, far from the
  32-bit limit, and are written \<open>2 * m\<close> and \<open>m div 2\<close>.
\<close>

datatype helpers = BigInteger | Native

text \<open>
  The remainder operator \<^verbatim>\<open>x % m\<close> of JavaScript and the method \<^verbatim>\<open>.mod\<close> of
  \<^verbatim>\<open>big-integer\<close> both truncate: the result has the sign of the dividend. The model
  covers a non-zero divisor; the program only ever divides by \<open>n\<close>, \<open>q\<close> and by the trial
  divisors \<open>2, 3, \<dots>\<close> of \<^verbatim>\<open>isPrime\<close>.
\<close>

definition js_rem :: "int \<Rightarrow> int \<Rightarrow> int" where
  "js_rem x m = sgn x * (\<bar>x\<bar> mod \<bar>m\<bar>)"

text \<open>
  \<^verbatim>\<open>function mod(x, m) { return bigInt(x).mod(m).toJSNumber(); }\<close> in the
  \<^verbatim>\<open>big-integer\<close> copies, and
  \<^verbatim>\<open>function mod(x, m) { return ((x % m) + m) % m; }\<close> in the native copy.
  The function is called \<open>mod_js\<close> here, \<open>mod\<close> being HOL's own remainder. The other three
  helpers follow their source line by line: \<^verbatim>\<open>bigInt(a).multiply(b).mod(m)\<close> against
  \<^verbatim>\<open>mod(a * b, m)\<close>, and likewise for \<^verbatim>\<open>add\<close> and \<^verbatim>\<open>subtract\<close>.
\<close>

fun mod_js :: "helpers \<Rightarrow> int \<Rightarrow> int \<Rightarrow> int" where
  "mod_js BigInteger x m = js_rem x m"
| "mod_js Native x m = js_rem (js_rem x m + m) m"

fun mulMod :: "helpers \<Rightarrow> int \<Rightarrow> int \<Rightarrow> int \<Rightarrow> int" where
  "mulMod BigInteger a b m = js_rem (a * b) m"
| "mulMod Native a b m = mod_js Native (a * b) m"

fun addMod :: "helpers \<Rightarrow> int \<Rightarrow> int \<Rightarrow> int \<Rightarrow> int" where
  "addMod BigInteger a b m = js_rem (a + b) m"
| "addMod Native a b m = mod_js Native (a + b) m"

fun subMod :: "helpers \<Rightarrow> int \<Rightarrow> int \<Rightarrow> int \<Rightarrow> int" where
  "subMod BigInteger a b m = js_rem (a - b) m"
| "subMod Native a b m = mod_js Native (a - b) m"

section \<open>Arrays, the store and errors\<close>

text \<open>
  JavaScript arrays are objects that are passed by reference and updated in place. The
  store is a list of arrays, an address is a position in it, and a new array is put at
  the end. The field \<open>drawn\<close> counts the calls of \<^verbatim>\<open>Math.random\<close> made so far.
\<close>

type_synonym addr = nat

record state =
  heap :: "int list list"
  drawn :: nat

text \<open>
  \<open>OutOfRange\<close> stands for an access \<^verbatim>\<open>x[i]\<close> outside the array, where JavaScript
  reads \<^verbatim>\<open>undefined\<close> (which \<^verbatim>\<open>big-integer\<close> rejects with a \<^verbatim>\<open>TypeError\<close> and native
  arithmetic turns into \<^verbatim>\<open>NaN\<close>) or silently grows the array on a write. \<open>NoProgress\<close>
  stands for a loop whose counter cannot change, which never returns. \<open>InvalidRef\<close> is
  an address with no array, which no JavaScript reference can be.
\<close>

datatype error = ParameterInvalid string | OutOfRange | NoProgress | InvalidRef

definition seq :: "error + 'a \<Rightarrow> ('a \<Rightarrow> error + 'b) \<Rightarrow> error + 'b" where
  "seq r f = (case r of Inl e \<Rightarrow> Inl e | Inr a \<Rightarrow> f a)"

definition rd :: "state \<Rightarrow> addr \<Rightarrow> int \<Rightarrow> error + int" where
  "rd s a i =
     (if a < length (heap s)
      then (if 0 \<le> i \<and> nat i < length (heap s ! a) then Inr (heap s ! a ! nat i)
            else Inl OutOfRange)
      else Inl InvalidRef)"

definition wr :: "state \<Rightarrow> addr \<Rightarrow> int \<Rightarrow> int \<Rightarrow> error + state" where
  "wr s a i v =
     (if a < length (heap s)
      then (if 0 \<le> i \<and> nat i < length (heap s ! a)
            then Inr (s\<lparr>heap := (heap s)[a := (heap s ! a)[nat i := v]]\<rparr>)
            else Inl OutOfRange)
      else Inl InvalidRef)"

definition alloc :: "int list \<Rightarrow> state \<Rightarrow> addr \<times> state" where
  "alloc xs s = (length (heap s), s\<lparr>heap := heap s @ [xs]\<rparr>)"

section \<open>Constants and twiddle tables\<close>

text \<open>
  \<^verbatim>\<open>const n = 1024; const q = 40961;\<close> The functions below take \<open>n\<close> and \<open>q\<close> as
  arguments, so that \<^verbatim>\<open>validateParameters\<close> has something to decide; the program is
  the instance at \<open>rlwe_n\<close> and \<open>rlwe_q\<close>.
\<close>

definition rlwe_n :: nat where "rlwe_n = 1024"
definition rlwe_q :: int where "rlwe_q = 40961"

text \<open>
  \<^verbatim>\<open>const W = [...Array(n).keys()].map((i) => (i + 1) % q);\<close>
  \<^verbatim>\<open>const W_rev = [...Array(n).keys()].map((i) => (q - i - 1) % q);\<close>
  The two tables are the first two arrays the module creates, so the global names
  \<open>W\<close> and \<open>W_rev\<close> are bound to the addresses 0 and 1.
\<close>

definition W :: addr where "W = 0"
definition W_rev :: addr where "W_rev = 1"

definition startup :: "nat \<Rightarrow> int \<Rightarrow> state" where
  "startup n q =
     \<lparr>heap = [map (\<lambda>i. js_rem (int i + 1) q) [0..<n],
              map (\<lambda>i. js_rem (q - int i - 1) q) [0..<n]],
      drawn = 0\<rparr>"

section \<open>The transforms\<close>

text \<open>
  One pass of the innermost loop body of \<^verbatim>\<open>fftForward\<close>:
  \<^verbatim>\<open>const t0 = addMod(x[i], x[i + m], q);\<close>
  \<^verbatim>\<open>const t1 = mulMod(subMod(x[i], x[i + m], q), W[index], q);\<close>
  \<^verbatim>\<open>x[i] = t0; x[i + m] = t1;\<close>
\<close>

definition fwd_body :: "helpers \<Rightarrow> int \<Rightarrow> addr \<Rightarrow> nat \<Rightarrow> int \<Rightarrow> nat \<Rightarrow> state \<Rightarrow> error + state" where
  "fwd_body h q x m index i s =
     seq (rd s x (int i)) (\<lambda>a.
     seq (rd s x (int (i + m))) (\<lambda>b.
     seq (rd s W index) (\<lambda>w.
       let t0 = addMod h a b q;
           t1 = mulMod h (subMod h a b q) w q
       in seq (wr s x (int i) t0) (\<lambda>s1. wr s1 x (int (i + m)) t1))))"

text \<open>
  \<^verbatim>\<open>for (let i = j; i < n; i += m << 1) { ... }\<close>
  With \<open>m = 0\<close> the source would repeat the body at the same \<open>i\<close> for ever; the model
  returns \<open>NoProgress\<close> there. The transforms never call the loop with \<open>m = 0\<close>.
\<close>

function fwd_loop_i :: "helpers \<Rightarrow> nat \<Rightarrow> int \<Rightarrow> addr \<Rightarrow> nat \<Rightarrow> int \<Rightarrow> nat \<Rightarrow> state \<Rightarrow> error + state" where
  "fwd_loop_i h n q x m index i s =
     (if i < n
      then (if m = 0 then Inl NoProgress
            else seq (fwd_body h q x m index i s) (fwd_loop_i h n q x m index (i + 2 * m)))
      else Inr s)"
  by pat_completeness auto
termination
  by (relation "measure (\<lambda>(h, n, q, x, m, index, i, s). n - i)") auto

text \<open>
  \<^verbatim>\<open>for (let j = 0; j < m; j++) { for (i ...) {...}; index = mod(index + (n - step), n); }\<close>
\<close>

function fwd_loop_j :: "helpers \<Rightarrow> nat \<Rightarrow> int \<Rightarrow> addr \<Rightarrow> nat \<Rightarrow> nat \<Rightarrow> int \<Rightarrow> nat \<Rightarrow> state \<Rightarrow> error + state" where
  "fwd_loop_j h n q x step m index j s =
     (if j < m
      then seq (fwd_loop_i h n q x m index j s)
             (fwd_loop_j h n q x step m (mod_js h (index + (int n - int step)) (int n)) (j + 1))
      else Inr s)"
  by pat_completeness auto
termination
  by (relation "measure (\<lambda>(h, n, q, x, step, m, index, j, s). m - j)") auto

text \<open>
  \<^verbatim>\<open>let step = 1; for (let m = n >> 1; m >= 1; m >>= 1) { let index = 0; ...; step <<= 1; }\<close>
\<close>

function fwd_loop_m :: "helpers \<Rightarrow> nat \<Rightarrow> int \<Rightarrow> addr \<Rightarrow> nat \<Rightarrow> nat \<Rightarrow> state \<Rightarrow> error + state" where
  "fwd_loop_m h n q x step m s =
     (if 1 \<le> m
      then seq (fwd_loop_j h n q x step m 0 0 s) (fwd_loop_m h n q x (2 * step) (m div 2))
      else Inr s)"
  by pat_completeness auto
termination
  by (relation "measure (\<lambda>(h, n, q, x, step, m, s). m)") auto

definition fftForward :: "helpers \<Rightarrow> nat \<Rightarrow> int \<Rightarrow> addr \<Rightarrow> state \<Rightarrow> error + state" where
  "fftForward h n q x s = fwd_loop_m h n q x 1 (n div 2) s"

text \<open>
  The loop body of \<^verbatim>\<open>fftBackward\<close>:
  \<^verbatim>\<open>const t0 = x[i]; const t1 = mulMod(x[i + m], W_rev[index], q);\<close>
  \<^verbatim>\<open>x[i] = addMod(t0, t1, q); x[i + m] = subMod(t0, t1, q);\<close>
\<close>

definition bwd_body :: "helpers \<Rightarrow> int \<Rightarrow> addr \<Rightarrow> nat \<Rightarrow> int \<Rightarrow> nat \<Rightarrow> state \<Rightarrow> error + state" where
  "bwd_body h q x m index i s =
     seq (rd s x (int i)) (\<lambda>t0.
     seq (rd s x (int (i + m))) (\<lambda>b.
     seq (rd s W_rev index) (\<lambda>w.
       let t1 = mulMod h b w q
       in seq (wr s x (int i) (addMod h t0 t1 q)) (\<lambda>s1.
            wr s1 x (int (i + m)) (subMod h t0 t1 q)))))"

function bwd_loop_i :: "helpers \<Rightarrow> nat \<Rightarrow> int \<Rightarrow> addr \<Rightarrow> nat \<Rightarrow> int \<Rightarrow> nat \<Rightarrow> state \<Rightarrow> error + state" where
  "bwd_loop_i h n q x m index i s =
     (if i < n
      then (if m = 0 then Inl NoProgress
            else seq (bwd_body h q x m index i s) (bwd_loop_i h n q x m index (i + 2 * m)))
      else Inr s)"
  by pat_completeness auto
termination
  by (relation "measure (\<lambda>(h, n, q, x, m, index, i, s). n - i)") auto

function bwd_loop_j :: "helpers \<Rightarrow> nat \<Rightarrow> int \<Rightarrow> addr \<Rightarrow> nat \<Rightarrow> nat \<Rightarrow> int \<Rightarrow> nat \<Rightarrow> state \<Rightarrow> error + state" where
  "bwd_loop_j h n q x step m index j s =
     (if j < m
      then seq (bwd_loop_i h n q x m index j s)
             (bwd_loop_j h n q x step m (mod_js h (index + (int n - int step)) (int n)) (j + 1))
      else Inr s)"
  by pat_completeness auto
termination
  by (relation "measure (\<lambda>(h, n, q, x, step, m, index, j, s). m - j)") auto

text \<open>
  \<^verbatim>\<open>let step = n >> 1; for (let m = 1; m < n; m <<= 1) { let index = 0; ...; step >>= 1; }\<close>
  Started at \<open>m = 0\<close> this loop would not advance either; it is started at \<open>m = 1\<close>.
\<close>

function bwd_loop_m :: "helpers \<Rightarrow> nat \<Rightarrow> int \<Rightarrow> addr \<Rightarrow> nat \<Rightarrow> nat \<Rightarrow> state \<Rightarrow> error + state" where
  "bwd_loop_m h n q x step m s =
     (if m < n
      then (if m = 0 then Inl NoProgress
            else seq (bwd_loop_j h n q x step m 0 0 s) (bwd_loop_m h n q x (step div 2) (2 * m)))
      else Inr s)"
  by pat_completeness auto
termination
  by (relation "measure (\<lambda>(h, n, q, x, step, m, s). n - m)") auto

definition fftBackward :: "helpers \<Rightarrow> nat \<Rightarrow> int \<Rightarrow> addr \<Rightarrow> state \<Rightarrow> error + state" where
  "fftBackward h n q x s = bwd_loop_m h n q x (n div 2) 1 s"

section \<open>The key exchange\<close>

text \<open>
  \<^verbatim>\<open>Array.from({ length: n }, () => Math.floor(Math.random() * q))\<close>
  The random source is an oracle \<open>rnd\<close>: \<open>rnd k\<close> is the integer that
  \<^verbatim>\<open>Math.floor(Math.random() * q)\<close> yields at the \<open>k\<close>-th call of \<^verbatim>\<open>Math.random\<close> in the
  run. As \<^verbatim>\<open>Math.random()\<close> lies in \<open>[0, 1)\<close>, that integer lies in \<open>[0, q)\<close>.
\<close>

definition sample :: "(nat \<Rightarrow> int) \<Rightarrow> nat \<Rightarrow> state \<Rightarrow> addr \<times> state" where
  "sample rnd n s =
     alloc (map (\<lambda>k. rnd (drawn s + k)) [0..<n]) (s\<lparr>drawn := drawn s + n\<rparr>)"

text \<open>\<^verbatim>\<open>a.slice()\<close>: a new array with the elements of \<open>a\<close>.\<close>

definition slice :: "addr \<Rightarrow> state \<Rightarrow> error + addr \<times> state" where
  "slice a s = (if a < length (heap s) then Inr (alloc (heap s ! a) s) else Inl InvalidRef)"

text \<open>
  \<^verbatim>\<open>a.map((val, i) => mulMod(val, b[i], q))\<close>: a new array as long as \<open>a\<close>; every
  \<open>b[i]\<close> with \<open>i\<close> below the length of \<open>a\<close> is read.
\<close>

definition map_mulMod :: "helpers \<Rightarrow> int \<Rightarrow> addr \<Rightarrow> addr \<Rightarrow> state \<Rightarrow> error + addr \<times> state" where
  "map_mulMod h q a b s =
     (if a < length (heap s) \<and> b < length (heap s)
      then (if length (heap s ! a) \<le> length (heap s ! b)
            then Inr (alloc (map (\<lambda>i. mulMod h (heap s ! a ! i) (heap s ! b ! i) q)
                               [0..<length (heap s ! a)]) s)
            else Inl OutOfRange)
      else Inl InvalidRef)"

text \<open>
  \<^verbatim>\<open>const privateKey = Array.from(...); const publicKey = privateKey.slice();\<close>
  \<^verbatim>\<open>fftForward(publicKey); return { privateKey, publicKey };\<close>
\<close>

definition generateKeyPair :: "helpers \<Rightarrow> (nat \<Rightarrow> int) \<Rightarrow> nat \<Rightarrow> int \<Rightarrow> state \<Rightarrow> error + (addr \<times> addr) \<times> state" where
  "generateKeyPair h rnd n q s =
     (case sample rnd n s of (privateKey, s1) \<Rightarrow>
        seq (slice privateKey s1) (\<lambda>(publicKey, s2).
        seq (fftForward h n q publicKey s2) (\<lambda>s3.
          Inr ((privateKey, publicKey), s3))))"

text \<open>
  \<^verbatim>\<open>const randomPoly = Array.from(...); const ciphertext = randomPoly.slice();\<close>
  \<^verbatim>\<open>fftForward(ciphertext);\<close>
  \<^verbatim>\<open>const sharedSecret = randomPoly.map((val, i) => mulMod(val, publicKey[i], q));\<close>
  \<^verbatim>\<open>return { ciphertext, sharedSecret };\<close>
\<close>

definition encapsulate :: "helpers \<Rightarrow> (nat \<Rightarrow> int) \<Rightarrow> nat \<Rightarrow> int \<Rightarrow> addr \<Rightarrow> state \<Rightarrow> error + (addr \<times> addr) \<times> state" where
  "encapsulate h rnd n q publicKey s =
     (case sample rnd n s of (randomPoly, s1) \<Rightarrow>
        seq (slice randomPoly s1) (\<lambda>(ciphertext, s2).
        seq (fftForward h n q ciphertext s2) (\<lambda>s3.
        seq (map_mulMod h q randomPoly publicKey s3) (\<lambda>(sharedSecret, s4).
          Inr ((ciphertext, sharedSecret), s4)))))"

text \<open>
  \<^verbatim>\<open>const sharedSecret = ciphertext.map((val, i) => mulMod(val, privateKey[i], q));\<close>
  \<^verbatim>\<open>fftBackward(sharedSecret); return sharedSecret;\<close>
\<close>

definition decapsulate :: "helpers \<Rightarrow> nat \<Rightarrow> int \<Rightarrow> addr \<Rightarrow> addr \<Rightarrow> state \<Rightarrow> error + addr \<times> state" where
  "decapsulate h n q ciphertext privateKey s =
     seq (map_mulMod h q ciphertext privateKey s) (\<lambda>(sharedSecret, s1).
     seq (fftBackward h n q sharedSecret s1) (\<lambda>s2.
       Inr (sharedSecret, s2)))"

section \<open>Parameter validation\<close>

text \<open>
  \<^verbatim>\<open>function isPrime(num) { if (num < 2) return false;\<close>
  \<^verbatim>\<open>  for (let i = 2; i * i <= num; i++) { if (num % i === 0) return false; } return true; }\<close>
\<close>

function isPrime_loop :: "int \<Rightarrow> int \<Rightarrow> bool" where
  "isPrime_loop num i =
     (if i * i \<le> num
      then (if js_rem num i = 0 then False else isPrime_loop num (i + 1))
      else True)"
  by pat_completeness auto
termination
proof (relation "measure (\<lambda>(num, i). nat (num + 1 - i))")
  show "wf (measure (\<lambda>(num, i). nat (num + 1 - i)))"
    by simp
next
  fix num i :: int
  assume sq: "i * i \<le> num"
  have "i \<le> i * i"
  proof (cases "0 < i")
    case True
    then have "i * 1 \<le> i * i"
      by (intro mult_left_mono) auto
    then show ?thesis by simp
  next
    case False
    then have "i \<le> 0" by simp
    also have "0 \<le> i * i" by simp
    finally show ?thesis .
  qed
  with sq have "i \<le> num" by simp
  then show "((num, i + 1), (num, i)) \<in> measure (\<lambda>(num, i). nat (num + 1 - i))"
    by simp
qed

definition isPrime :: "int \<Rightarrow> bool" where
  "isPrime num = (if num < 2 then False else isPrime_loop num 2)"

text \<open>
  The operator \<^verbatim>\<open>&\<close> works on the 32-bit two's complement values of its operands.
\<close>

definition js_and :: "int \<Rightarrow> int \<Rightarrow> int" where
  "js_and a b = signed_take_bit 31 a AND signed_take_bit 31 b"

text \<open>
  Only the native copy has this function:
  \<^verbatim>\<open>if (n <= 0 || (n & (n - 1)) !== 0) throw new Error("Parameter 'n' must be a power of 2 ...");\<close>
  \<^verbatim>\<open>if (!isPrime(q)) throw new Error("Parameter 'q' must be a prime number.");\<close>
  \<^verbatim>\<open>if (q < n) throw new Error("Parameter 'q' must be larger than 'n' to prevent overflow.");\<close>
\<close>

definition validateParameters :: "int \<Rightarrow> int \<Rightarrow> error + unit" where
  "validateParameters n q =
     (if n \<le> 0 \<or> js_and n (n - 1) \<noteq> 0
      then Inl (ParameterInvalid ''Parameter 'n' must be a power of 2 for FFT compatibility.'')
      else if \<not> isPrime q
      then Inl (ParameterInvalid ''Parameter 'q' must be a prime number.'')
      else if q < n
      then Inl (ParameterInvalid ''Parameter 'q' must be larger than 'n' to prevent overflow.'')
      else Inr ())"

section \<open>Entropy derivation\<close>

text \<open>
  \<^verbatim>\<open>val.toString()\<close> of an integer-valued number below \<open>10^21\<close> in absolute value: its
  decimal digits, after a minus sign when it is negative.
\<close>

definition digit_char :: "nat \<Rightarrow> char" where
  "digit_char d = char_of (48 + d)"

function digits :: "nat \<Rightarrow> string" where
  "digits k = (if k < 10 then [digit_char k] else digits (k div 10) @ [digit_char (k mod 10)])"
  by pat_completeness auto
termination
  by (relation "measure id") auto

definition toString :: "int \<Rightarrow> string" where
  "toString v = (if v < 0 then CHR ''-'' # digits (nat (- v)) else digits (nat v))"

text \<open>\<^verbatim>\<open>Buffer.from(str)\<close>: the UTF-8 bytes of the string, here plain ASCII.\<close>

type_synonym byte = "8 word"

definition Buffer_from :: "string \<Rightarrow> byte list" where
  "Buffer_from str = map of_char str"

text \<open>
  The hash object comes from Node's \<^verbatim>\<open>crypto\<close> module, which is not part of the
  repository. \<^verbatim>\<open>crypto.createHash("sha256")\<close> is modelled by the bytes it has been fed:
  \<^verbatim>\<open>update\<close> appends, \<^verbatim>\<open>digest\<close> returns SHA-256 (FIPS 180-4) of all of them.
\<close>

type_synonym w32 = "32 word"

definition Ch :: "w32 \<Rightarrow> w32 \<Rightarrow> w32 \<Rightarrow> w32" where
  "Ch x y z = (x AND y) XOR (NOT x AND z)"

definition Maj :: "w32 \<Rightarrow> w32 \<Rightarrow> w32 \<Rightarrow> w32" where
  "Maj x y z = (x AND y) XOR (x AND z) XOR (y AND z)"

definition Sigma0 :: "w32 \<Rightarrow> w32" where
  "Sigma0 x = word_rotr 2 x XOR word_rotr 13 x XOR word_rotr 22 x"

definition Sigma1 :: "w32 \<Rightarrow> w32" where
  "Sigma1 x = word_rotr 6 x XOR word_rotr 11 x XOR word_rotr 25 x"

definition sigma0 :: "w32 \<Rightarrow> w32" where
  "sigma0 x = word_rotr 7 x XOR word_rotr 18 x XOR drop_bit 3 x"

definition sigma1 :: "w32 \<Rightarrow> w32" where
  "sigma1 x = word_rotr 17 x XOR word_rotr 19 x XOR drop_bit 10 x"

text \<open>
  The round constants (the first 32 bits of the fractional parts of the cube roots of
  the first 64 primes) and the initial hash value (likewise for the square roots of the
  first 8 primes), as decimal numbers.
\<close>

definition sha_K :: "w32 list" where
  "sha_K =
     [
      1116352408, 1899447441, 3049323471, 3921009573, 961987163, 1508970993,
      2453635748, 2870763221, 3624381080, 310598401, 607225278, 1426881987,
      1925078388, 2162078206, 2614888103, 3248222580, 3835390401, 4022224774,
      264347078, 604807628, 770255983, 1249150122, 1555081692, 1996064986,
      2554220882, 2821834349, 2952996808, 3210313671, 3336571891, 3584528711,
      113926993, 338241895, 666307205, 773529912, 1294757372, 1396182291,
      1695183700, 1986661051, 2177026350, 2456956037, 2730485921, 2820302411,
      3259730800, 3345764771, 3516065817, 3600352804, 4094571909, 275423344,
      430227734, 506948616, 659060556, 883997877, 958139571, 1322822218,
      1537002063, 1747873779, 1955562222, 2024104815, 2227730452, 2361852424,
      2428436474, 2756734187, 3204031479, 3329325298
     ]"

definition sha_H0 :: "w32 list" where
  "sha_H0 =
     [
      1779033703, 3144134277, 1013904242, 2773480762, 1359893119, 2600822924,
      528734635, 1541459225
     ]"

definition be32 :: "byte list \<Rightarrow> w32" where
  "be32 bs = foldl (\<lambda>acc b. push_bit 8 acc OR ucast b) 0 bs"

definition be_bytes :: "nat \<Rightarrow> 'a::len word \<Rightarrow> byte list" where
  "be_bytes k w = map (\<lambda>i. ucast (drop_bit (8 * (k - 1 - i)) w)) [0..<k]"

definition sha_pad :: "byte list \<Rightarrow> byte list" where
  "sha_pad msg =
     msg @ [0x80] @ replicate ((119 - length msg mod 64) mod 64) 0
         @ be_bytes 8 (of_nat (8 * length msg) :: 64 word)"

fun sha_words :: "byte list \<Rightarrow> w32 list" where
  "sha_words (a # b # c # d # rest) = be32 [a, b, c, d] # sha_words rest"
| "sha_words _ = []"

definition sha_schedule :: "w32 list \<Rightarrow> w32 list" where
  "sha_schedule blk =
     foldl (\<lambda>w t. w @ [sigma1 (w ! (t - 2)) + w ! (t - 7) + sigma0 (w ! (t - 15)) + w ! (t - 16)])
       blk [16..<64]"

fun sha_round :: "w32 list \<Rightarrow> w32 \<times> w32 \<Rightarrow> w32 list" where
  "sha_round [a, b, c, d, e, f, g, hh] (k, w) =
     (let t1 = hh + Sigma1 e + Ch e f g + k + w;
          t2 = Sigma0 a + Maj a b c
      in [t1 + t2, a, b, c, d + t1, e, f, g])"
| "sha_round v _ = v"

definition sha_compress :: "w32 list \<Rightarrow> w32 list \<Rightarrow> w32 list" where
  "sha_compress hs blk = map2 (+) hs (foldl sha_round hs (zip sha_K (sha_schedule blk)))"

function sha_blocks :: "w32 list \<Rightarrow> w32 list \<Rightarrow> w32 list" where
  "sha_blocks hs ws =
     (if length ws < 16 then hs else sha_blocks (sha_compress hs (take 16 ws)) (drop 16 ws))"
  by pat_completeness auto
termination
  by (relation "measure (\<lambda>(hs, ws). length ws)") auto

definition sha256 :: "byte list \<Rightarrow> byte list" where
  "sha256 msg =
     concat (map (be_bytes 4) (sha_blocks sha_H0 (sha_words (sha_pad msg))))"

text \<open>
  \<^verbatim>\<open>const hash = crypto.createHash("sha256");\<close>
  \<^verbatim>\<open>sharedSecret.forEach((val) => hash.update(Buffer.from(val.toString())));\<close>
  \<^verbatim>\<open>return hash.digest();\<close>
\<close>

definition createHash :: "byte list" where
  "createHash = []"

definition update :: "byte list \<Rightarrow> byte list \<Rightarrow> byte list" where
  "update hash bytes = hash @ bytes"

definition digest :: "byte list \<Rightarrow> byte list" where
  "digest hash = sha256 hash"

definition sharedSecretToEntropy :: "addr \<Rightarrow> state \<Rightarrow> error + byte list" where
  "sharedSecretToEntropy sharedSecret s =
     (if sharedSecret < length (heap s)
      then Inr (digest (foldl (\<lambda>hash val. update hash (Buffer_from (toString val)))
                          createHash (heap s ! sharedSecret)))
      else Inl InvalidRef)"

section \<open>The main block\<close>

text \<open>
  \<^verbatim>\<open>try { validateParameters(); const { privateKey, publicKey } = generateKeyPair();\<close>
  \<^verbatim>\<open>  const { ciphertext, sharedSecret: senderSharedSecret } = encapsulate(publicKey);\<close>
  \<^verbatim>\<open>  const receiverSharedSecret = decapsulate(ciphertext, privateKey); ... }\<close>
  The call of \<^verbatim>\<open>validateParameters\<close> is in the native copy only. The tables are built
  when the module is loaded, before the block runs. The model ends where the entropy of
  \<open>receiverSharedSecret\<close> is handed to the elliptic-curve libraries.
\<close>

definition main :: "helpers \<Rightarrow> (nat \<Rightarrow> int) \<Rightarrow> nat \<Rightarrow> int \<Rightarrow> error + byte list \<times> state" where
  "main h rnd n q =
     (let s0 = startup n q in
      seq (case h of Native \<Rightarrow> validateParameters (int n) q | BigInteger \<Rightarrow> Inr ()) (\<lambda>_.
      seq (generateKeyPair h rnd n q s0) (\<lambda>((privateKey, publicKey), s1).
      seq (encapsulate h rnd n q publicKey s1) (\<lambda>((ciphertext, senderSharedSecret), s2).
      seq (decapsulate h n q ciphertext privateKey s2) (\<lambda>(receiverSharedSecret, s3).
      seq (sharedSecretToEntropy receiverSharedSecret s3) (\<lambda>entropy.
        Inr (entropy, s3)))))))"

section \<open>Predicates of the statements\<close>

text \<open>
  \<open>poly_at n a s\<close>: the address \<open>a\<close> holds an array of length \<open>n\<close>.
  \<open>only_changes x s s'\<close>: the states differ at most in the contents of the array at \<open>x\<close>,
  which keeps its length; no array is added, and no random number is drawn.
  \<open>in_range q xs\<close>: every element lies in \<open>[0, q)\<close>.
\<close>

definition poly_at :: "nat \<Rightarrow> addr \<Rightarrow> state \<Rightarrow> bool" where
  "poly_at n a s = (a < length (heap s) \<and> length (heap s ! a) = n)"

definition only_changes :: "addr \<Rightarrow> state \<Rightarrow> state \<Rightarrow> bool" where
  "only_changes x s s' =
     (\<exists>xs. length xs = length (heap s ! x) \<and> s' = s\<lparr>heap := (heap s)[x := xs]\<rparr>)"

definition in_range :: "int \<Rightarrow> int list \<Rightarrow> bool" where
  "in_range q xs = list_all (\<lambda>v. 0 \<le> v \<and> v < q) xs"

text \<open>\<open>is_prime p\<close>: \<open>p\<close> is at least \<open>2\<close> and has no divisor between \<open>2\<close> and \<open>p - 1\<close>.\<close>

definition is_prime :: "int \<Rightarrow> bool" where
  "is_prime p = (2 \<le> p \<and> (\<forall>d. 2 \<le> d \<and> d < p \<longrightarrow> \<not> d dvd p))"

text \<open>
  \<open>keeps_arrays s s'\<close>: every array of \<open>s\<close> is still there in \<open>s'\<close>, at the same address and with
  the same contents (\<open>s'\<close> may hold more arrays). \<open>tables_kept s s'\<close>: the two twiddle
  tables have the same contents in both states.
\<close>

definition keeps_arrays :: "state \<Rightarrow> state \<Rightarrow> bool" where
  "keeps_arrays s s' = (length (heap s) \<le> length (heap s') \<and> take (length (heap s)) (heap s') = heap s)"

definition tables_kept :: "state \<Rightarrow> state \<Rightarrow> bool" where
  "tables_kept s s' = (heap s' ! W = heap s ! W \<and> heap s' ! W_rev = heap s ! W_rev)"

section \<open>The transforms as functions on lists\<close>

text \<open>
  These functions are not in the source. They describe, pass by pass, the list that the
  in-place loops leave behind; the lemmas \<open>fftForward_eq\<close> and \<open>fftBackward_eq\<close> prove
  that the loops compute them. One butterfly maps a pair \<open>(a, b)\<close> and a twiddle factor \<open>w\<close> to a new pair.
\<close>

definition fwd_pair :: "helpers \<Rightarrow> int \<Rightarrow> int \<Rightarrow> int \<Rightarrow> int \<Rightarrow> int \<times> int" where
  "fwd_pair h q a b w = (addMod h a b q, mulMod h (subMod h a b q) w q)"

definition bwd_pair :: "helpers \<Rightarrow> int \<Rightarrow> int \<Rightarrow> int \<Rightarrow> int \<Rightarrow> int \<times> int" where
  "bwd_pair h q a b w = (addMod h a (mulMod h b w q) q, subMod h a (mulMod h b w q) q)"

text \<open>The step of the twiddle index after a column: \<^verbatim>\<open>index = mod(index + (n - step), n)\<close>.\<close>

definition advance :: "helpers \<Rightarrow> nat \<Rightarrow> nat \<Rightarrow> int \<Rightarrow> int" where
  "advance h n step index = mod_js h (index + (int n - int step)) (int n)"

text \<open>
  \<open>column\<close>: the list after the innermost loop has run from position \<open>i\<close> on, with pair
  distance \<open>m\<close> and twiddle factor \<open>w\<close>. The positions \<open>i, i + 2m, \<dots>\<close> take the first
  component of their butterfly, the positions \<open>i + m, i + 3m, \<dots>\<close> the second one.
  \<open>columns\<close>: the list after the middle loop has run from column \<open>j\<close> on, the twiddle
  index being \<open>index\<close> at column \<open>j\<close>.
\<close>

definition column :: "(int \<Rightarrow> int \<Rightarrow> int \<Rightarrow> int \<times> int) \<Rightarrow> int \<Rightarrow> nat \<Rightarrow> nat \<Rightarrow> int list \<Rightarrow> int list" where
  "column bf w m i xs =
     map (\<lambda>p. if i div (2 * m) \<le> p div (2 * m) \<and> p mod (2 * m) = i mod (2 * m)
              then fst (bf (xs ! p) (xs ! (p + m)) w)
              else if i div (2 * m) \<le> p div (2 * m) \<and> p mod (2 * m) = i mod (2 * m) + m
              then snd (bf (xs ! (p - m)) (xs ! p) w)
              else xs ! p) [0..<length xs]"

definition columns :: "(int \<Rightarrow> int \<Rightarrow> int \<Rightarrow> int \<times> int) \<Rightarrow> (int \<Rightarrow> int) \<Rightarrow> int list \<Rightarrow> nat \<Rightarrow> nat \<Rightarrow> int \<Rightarrow> int list \<Rightarrow> int list" where
  "columns bf adv tw m j index xs =
     map (\<lambda>p. if j \<le> p mod (2 * m) \<and> p mod (2 * m) < m
              then fst (bf (xs ! p) (xs ! (p + m)) (tw ! nat ((adv ^^ (p mod (2 * m) - j)) index)))
              else if m + j \<le> p mod (2 * m)
              then snd (bf (xs ! (p - m)) (xs ! p) (tw ! nat ((adv ^^ (p mod (2 * m) - m - j)) index)))
              else xs ! p) [0..<length xs]"

definition fwd_stage :: "helpers \<Rightarrow> nat \<Rightarrow> int \<Rightarrow> int list \<Rightarrow> nat \<Rightarrow> nat \<Rightarrow> int list \<Rightarrow> int list" where
  "fwd_stage h n q tw step m xs = columns (fwd_pair h q) (advance h n step) tw m 0 0 xs"

definition bwd_stage :: "helpers \<Rightarrow> nat \<Rightarrow> int \<Rightarrow> int list \<Rightarrow> nat \<Rightarrow> nat \<Rightarrow> int list \<Rightarrow> int list" where
  "bwd_stage h n q tw step m xs = columns (bwd_pair h q) (advance h n step) tw m 0 0 xs"

function fwd_stages :: "helpers \<Rightarrow> nat \<Rightarrow> int \<Rightarrow> int list \<Rightarrow> nat \<Rightarrow> nat \<Rightarrow> int list \<Rightarrow> int list" where
  "fwd_stages h n q tw step m xs =
     (if 1 \<le> m then fwd_stages h n q tw (2 * step) (m div 2) (fwd_stage h n q tw step m xs)
      else xs)"
  by pat_completeness auto
termination
  by (relation "measure (\<lambda>(h, n, q, tw, step, m, xs). m)") auto

function bwd_stages :: "helpers \<Rightarrow> nat \<Rightarrow> int \<Rightarrow> int list \<Rightarrow> nat \<Rightarrow> nat \<Rightarrow> int list \<Rightarrow> int list" where
  "bwd_stages h n q tw step m xs =
     (if m < n \<and> 0 < m
      then bwd_stages h n q tw (step div 2) (2 * m) (bwd_stage h n q tw step m xs)
      else xs)"
  by pat_completeness auto
termination
  by (relation "measure (\<lambda>(h, n, q, tw, step, m, xs). n - m)") auto

definition forward_poly :: "helpers \<Rightarrow> nat \<Rightarrow> int \<Rightarrow> int list \<Rightarrow> int list \<Rightarrow> int list" where
  "forward_poly h n q tw xs = fwd_stages h n q tw 1 (n div 2) xs"

definition backward_poly :: "helpers \<Rightarrow> nat \<Rightarrow> int \<Rightarrow> int list \<Rightarrow> int list \<Rightarrow> int list" where
  "backward_poly h n q tw xs = bwd_stages h n q tw (n div 2) 1 xs"

text \<open>
  Two shapes of lists used in the worked inputs: \<open>head_block n t v\<close> holds \<open>v\<close> at the
  positions below \<open>t\<close> and \<open>0\<close> elsewhere; \<open>supported m xs\<close> says that \<open>xs\<close> is \<open>0\<close> outside
  the multiples of \<open>m\<close>.
\<close>

definition head_block :: "nat \<Rightarrow> nat \<Rightarrow> int \<Rightarrow> int list" where
  "head_block n t v = map (\<lambda>p. if p < t then v else 0) [0..<n]"

definition supported :: "nat \<Rightarrow> int list \<Rightarrow> bool" where
  "supported m xs = (\<forall>p < length xs. \<not> m dvd p \<longrightarrow> xs ! p = 0)"


section \<open>Basic facts\<close>

declare fwd_loop_i.simps [simp del] fwd_loop_j.simps [simp del] fwd_loop_m.simps [simp del]
declare bwd_loop_i.simps [simp del] bwd_loop_j.simps [simp del] bwd_loop_m.simps [simp del]
declare isPrime_loop.simps [simp del] digits.simps [simp del] sha_blocks.simps [simp del]
declare fwd_stages.simps [simp del] bwd_stages.simps [simp del]

lemma seq_Inr [simp]: "seq (Inr a) f = f a"
  by (simp add: seq_def)

lemma seq_Inl [simp]: "seq (Inl e) f = Inl e"
  by (simp add: seq_def)

lemma js_rem_nonneg: "0 \<le> x \<Longrightarrow> 0 < m \<Longrightarrow> js_rem x m = x mod m"
  by (cases "x = 0") (simp_all add: js_rem_def)

lemma js_rem_neg: "x < 0 \<Longrightarrow> 0 < m \<Longrightarrow> js_rem x m = - ((- x) mod m)"
  by (simp add: js_rem_def)

lemma js_rem_bounds: "0 < m \<Longrightarrow> - m < js_rem x m \<and> js_rem x m < m"
proof (cases "0 \<le> x")
  case True
  assume "0 < m"
  with True have "js_rem x m = x mod m"
    by (simp add: js_rem_nonneg)
  with \<open>0 < m\<close> show ?thesis
    using pos_mod_bound [of m x] pos_mod_sign [of m x] by linarith
next
  case False
  assume m: "0 < m"
  with False have "js_rem x m = - ((- x) mod m)"
    by (simp add: js_rem_neg)
  with m show ?thesis
    using pos_mod_bound [of m "- x"] pos_mod_sign [of m "- x"] by linarith
qed

lemma mod_js_Native: "0 < m \<Longrightarrow> mod_js Native x m = x mod m"
proof -
  assume m: "0 < m"
  have b: "- m < js_rem x m \<and> js_rem x m < m"
    using m by (rule js_rem_bounds)
  have c: "js_rem x m mod m = x mod m"
  proof (cases "0 \<le> x")
    case True
    with m show ?thesis by (simp add: js_rem_nonneg)
  next
    case False
    with m have "js_rem x m = - ((- x) mod m)" by (simp add: js_rem_neg)
    then show ?thesis by (simp add: mod_minus_eq)
  qed
  from b have "0 \<le> js_rem x m + m" by simp
  then have "mod_js Native x m = (js_rem x m + m) mod m"
    using m by (simp add: js_rem_nonneg)
  also have "\<dots> = x mod m"
    using c by simp
  finally show ?thesis .
qed

lemma mod_js_range: "0 < m \<Longrightarrow> 0 \<le> x \<Longrightarrow> 0 \<le> mod_js h x m \<and> mod_js h x m < m"
  by (cases h) (simp_all add: js_rem_nonneg mod_js_Native)


subsection \<open>One loop body\<close>

lemma fwd_body_eq:
  assumes "x < length (heap s)" and "W < length (heap s)"
    and "i + m < length (heap s ! x)" and "0 \<le> index" and "nat index < length (heap s ! W)"
  shows "fwd_body h q x m index i s =
     Inr (s\<lparr>heap := (heap s)[x := (heap s ! x)
        [i := addMod h (heap s ! x ! i) (heap s ! x ! (i + m)) q,
         i + m := mulMod h (subMod h (heap s ! x ! i) (heap s ! x ! (i + m)) q)
                    (heap s ! W ! nat index) q]]\<rparr>)"
  using assms by (simp add: fwd_body_def rd_def wr_def Let_def nat_int_add)

lemma bwd_body_eq:
  assumes "x < length (heap s)" and "W_rev < length (heap s)"
    and "i + m < length (heap s ! x)" and "0 \<le> index" and "nat index < length (heap s ! W_rev)"
  shows "bwd_body h q x m index i s =
     Inr (s\<lparr>heap := (heap s)[x := (heap s ! x)
        [i := addMod h (heap s ! x ! i) (mulMod h (heap s ! x ! (i + m)) (heap s ! W_rev ! nat index) q) q,
         i + m := subMod h (heap s ! x ! i)
                    (mulMod h (heap s ! x ! (i + m)) (heap s ! W_rev ! nat index) q) q]]\<rparr>)"
  using assms by (simp add: bwd_body_def rd_def wr_def Let_def nat_int_add)

subsection \<open>What a transform may change\<close>

lemma only_changes_refl: "only_changes x s s"
  unfolding only_changes_def by (rule exI [of _ "heap s ! x"]) simp

lemma only_changes_update:
  "length xs = length (heap s ! x) \<Longrightarrow> only_changes x s (s\<lparr>heap := (heap s)[x := xs]\<rparr>)"
  unfolding only_changes_def by blast

lemma only_changes_length:
  "only_changes x s s' \<Longrightarrow> length (heap s') = length (heap s)"
  unfolding only_changes_def by auto

lemma only_changes_drawn:
  "only_changes x s s' \<Longrightarrow> drawn s' = drawn s"
  unfolding only_changes_def by auto

lemma only_changes_other:
  "only_changes x s s' \<Longrightarrow> a \<noteq> x \<Longrightarrow> heap s' ! a = heap s ! a"
  unfolding only_changes_def by auto

lemma only_changes_lengths:
  "only_changes x s s' \<Longrightarrow> length (heap s' ! a) = length (heap s ! a)"
  unfolding only_changes_def
  by (cases "a = x"; cases "x < length (heap s)") (auto simp: list_update_beyond)

lemma only_changes_trans:
  assumes "only_changes x s s1" and "only_changes x s1 s2"
  shows "only_changes x s s2"
proof -
  from assms(1) obtain xs where xs: "length xs = length (heap s ! x)"
    "s1 = s\<lparr>heap := (heap s)[x := xs]\<rparr>"
    unfolding only_changes_def by blast
  from assms(2) obtain ys where ys: "length ys = length (heap s1 ! x)"
    "s2 = s1\<lparr>heap := (heap s1)[x := ys]\<rparr>"
    unfolding only_changes_def by blast
  have "length (heap s1 ! x) = length (heap s ! x)"
    using assms(1) by (rule only_changes_lengths)
  with ys(1) have "length ys = length (heap s ! x)" by simp
  moreover have "s2 = s\<lparr>heap := (heap s)[x := ys]\<rparr>"
    using xs(2) ys(2) by simp
  ultimately show ?thesis
    unfolding only_changes_def by blast
qed

section \<open>The transforms stay inside their array\<close>

lemma pair_in_range:
  fixes i m n :: nat
  assumes "(2 * m) dvd n" and "i < n" and "i mod (2 * m) < m"
  shows "i + m < n"
proof -
  from assms(1) obtain c where c: "n = 2 * m * c" ..
  have "i div (2 * m) < c"
    using assms(2) c by (simp add: less_mult_imp_div_less mult.commute)
  then have "i div (2 * m) + 1 \<le> c" by simp
  then have "2 * m * (i div (2 * m) + 1) \<le> 2 * m * c"
    by (rule mult_le_mono2)
  moreover have "i = 2 * m * (i div (2 * m)) + i mod (2 * m)"
    by simp
  ultimately show ?thesis
    using assms(3) c by (simp add: algebra_simps) 
qed

lemma poly_at_only_changes:
  "only_changes x s s' \<Longrightarrow> poly_at n a s' = poly_at n a s"
  by (simp add: poly_at_def only_changes_length only_changes_lengths)

lemma fwd_loop_i_ok:
  assumes "poly_at n x s" and "poly_at n W s" and "0 \<le> index" and "index < int n"
    and "0 < m" and "(2 * m) dvd n" and "i mod (2 * m) < m"
  shows "\<exists>s'. fwd_loop_i h n q x m index i s = Inr s' \<and> only_changes x s s'"
  using assms
proof (induction h n q x m index i s rule: fwd_loop_i.induct)
  case (1 h n q x m index i s)
  show ?case
  proof (cases "i < n")
    case False
    then show ?thesis
      by (simp add: fwd_loop_i.simps only_changes_refl)
  next
    case True
    from "1.prems" True have im: "i + m < n"
      by (intro pair_in_range) auto
    define s1 where "s1 = s\<lparr>heap := (heap s)[x := (heap s ! x)
        [i := addMod h (heap s ! x ! i) (heap s ! x ! (i + m)) q,
         i + m := mulMod h (subMod h (heap s ! x ! i) (heap s ! x ! (i + m)) q)
                    (heap s ! W ! nat index) q]]\<rparr>"
    have body: "fwd_body h q x m index i s = Inr s1"
      unfolding s1_def using "1.prems" im by (intro fwd_body_eq) (auto simp: poly_at_def)
    have oc1: "only_changes x s s1"
      unfolding s1_def by (intro only_changes_update) simp
    have "\<exists>s'. fwd_loop_i h n q x m index (i + 2 * m) s1 = Inr s' \<and> only_changes x s1 s'"
      using "1.prems" True by (intro "1.IH") (auto simp: poly_at_only_changes [OF oc1])
    then obtain s' where s': "fwd_loop_i h n q x m index (i + 2 * m) s1 = Inr s'"
      "only_changes x s1 s'" by blast
    have "fwd_loop_i h n q x m index i s = Inr s'"
      using True "1.prems"(5) body s'(1) by (subst fwd_loop_i.simps) simp
    with only_changes_trans [OF oc1 s'(2)] show ?thesis by blast
  qed
qed

lemma fwd_loop_j_ok:
  assumes "poly_at n x s" and "poly_at n W s" and "0 \<le> index" and "index < int n"
    and "0 < m" and "(2 * m) dvd n" and "step \<le> n"
  shows "\<exists>s'. fwd_loop_j h n q x step m index j s = Inr s' \<and> only_changes x s s'"
  using assms
proof (induction h n q x step m index j s rule: fwd_loop_j.induct)
  case (1 h n q x step m index j s)
  show ?case
  proof (cases "j < m")
    case False
    then show ?thesis
      by (simp add: fwd_loop_j.simps only_changes_refl)
  next
    case True
    then have "j mod (2 * m) < m" by simp
    with "1.prems" obtain s1 where s1: "fwd_loop_i h n q x m index j s = Inr s1"
      "only_changes x s s1"
      using fwd_loop_i_ok [of n x s index m j h q] by blast
    define index' where "index' = mod_js h (index + (int n - int step)) (int n)"
    have "0 < n" using "1.prems" by (auto elim: dvdE)
    then have idx: "0 \<le> index' \<and> index' < int n"
      unfolding index'_def using "1.prems" by (intro mod_js_range) auto
    have "\<exists>s'. fwd_loop_j h n q x step m index' (j + 1) s1 = Inr s' \<and> only_changes x s1 s'"
      unfolding index'_def using "1.prems" True idx
      by (intro "1.IH") (auto simp: poly_at_only_changes [OF s1(2)] index'_def)
    then obtain s' where s': "fwd_loop_j h n q x step m index' (j + 1) s1 = Inr s'"
      "only_changes x s1 s'" by blast
    have "fwd_loop_j h n q x step m index j s = Inr s'"
      using True s1(1) s'(1) by (subst fwd_loop_j.simps) (simp add: index'_def)
    with only_changes_trans [OF s1(2) s'(2)] show ?thesis by blast
  qed
qed

lemma fwd_loop_m_ok:
  assumes "poly_at (2 ^ k) x s" and "poly_at (2 ^ k) W s" and "e < k" and "step * 2 ^ e \<le> 2 ^ k"
  shows "\<exists>s'. fwd_loop_m h (2 ^ k) q x step (2 ^ e) s = Inr s' \<and> only_changes x s s'"
  using assms
proof (induction e arbitrary: step s)
  case 0
  have "2 dvd (2::nat) ^ k"
    using "0.prems"(3) by simp 
  with "0.prems" obtain s1 where s1: "fwd_loop_j h (2 ^ k) q x step 1 0 0 s = Inr s1"
    "only_changes x s s1"
    using fwd_loop_j_ok [of "2 ^ k" x s 0 1 step h q 0] by auto
  have "fwd_loop_m h (2 ^ k) q x step (2 ^ 0) s = Inr s1"
    using s1(1)
    by (simp add: fwd_loop_m.simps [of _ _ _ _ _ "Suc 0"] fwd_loop_m.simps [of _ _ _ _ _ 0])
  with s1(2) show ?case by blast
next
  case (Suc e)
  have "(2::nat) ^ Suc (Suc e) dvd 2 ^ k"
    using Suc.prems(3) by (intro le_imp_power_dvd) simp
  then have dvd: "2 * 2 ^ Suc e dvd (2::nat) ^ k" by simp
  have "step * 1 \<le> step * 2 ^ Suc e"
    by (intro mult_le_mono2) simp
  also have "\<dots> \<le> 2 ^ k"
    by (rule Suc.prems(4))
  finally have "step \<le> 2 ^ k" by simp
  with Suc.prems dvd obtain s1 where
    s1: "fwd_loop_j h (2 ^ k) q x step (2 ^ Suc e) 0 0 s = Inr s1" "only_changes x s s1"
    using fwd_loop_j_ok [of "2 ^ k" x s 0 "2 ^ Suc e" step h q 0] by auto
  have "\<exists>s'. fwd_loop_m h (2 ^ k) q x (2 * step) (2 ^ e) s1 = Inr s' \<and> only_changes x s1 s'"
    using Suc.prems by (intro Suc.IH) (auto simp: poly_at_only_changes [OF s1(2)])
  then obtain s' where s': "fwd_loop_m h (2 ^ k) q x (2 * step) (2 ^ e) s1 = Inr s'"
    "only_changes x s1 s'" by blast
  have "fwd_loop_m h (2 ^ k) q x step (2 ^ Suc e) s = Inr s'"
    using s1(1) s'(1) by (subst fwd_loop_m.simps) simp
  with only_changes_trans [OF s1(2) s'(2)] show ?case by blast
qed

lemma fftForward_ok:
  assumes "poly_at (2 ^ k) x s" and "poly_at (2 ^ k) W s"
  shows "\<exists>s'. fftForward h (2 ^ k) q x s = Inr s' \<and> only_changes x s s'"
proof (cases k)
  case 0
  then show ?thesis
    by (simp add: fftForward_def fwd_loop_m.simps only_changes_refl)
next
  case (Suc e)
  then have "(2::nat) ^ k div 2 = 2 ^ e" by simp
  moreover have "\<exists>s'. fwd_loop_m h (2 ^ k) q x 1 (2 ^ e) s = Inr s' \<and> only_changes x s s'"
    using assms Suc by (intro fwd_loop_m_ok) auto
  ultimately show ?thesis
    by (simp add: fftForward_def)
qed


lemma bwd_loop_i_ok:
  assumes "poly_at n x s" and "poly_at n W_rev s" and "0 \<le> index" and "index < int n"
    and "0 < m" and "(2 * m) dvd n" and "i mod (2 * m) < m"
  shows "\<exists>s'. bwd_loop_i h n q x m index i s = Inr s' \<and> only_changes x s s'"
  using assms
proof (induction h n q x m index i s rule: bwd_loop_i.induct)
  case (1 h n q x m index i s)
  show ?case
  proof (cases "i < n")
    case False
    then show ?thesis
      by (simp add: bwd_loop_i.simps only_changes_refl)
  next
    case True
    from "1.prems" True have im: "i + m < n"
      by (intro pair_in_range) auto
    define t1 where "t1 = mulMod h (heap s ! x ! (i + m)) (heap s ! W_rev ! nat index) q"
    define s1 where "s1 = s\<lparr>heap := (heap s)[x := (heap s ! x)
        [i := addMod h (heap s ! x ! i) t1 q, i + m := subMod h (heap s ! x ! i) t1 q]]\<rparr>"
    have body: "bwd_body h q x m index i s = Inr s1"
      unfolding s1_def t1_def using "1.prems" im by (intro bwd_body_eq) (auto simp: poly_at_def)
    have oc1: "only_changes x s s1"
      unfolding s1_def by (intro only_changes_update) simp
    have "\<exists>s'. bwd_loop_i h n q x m index (i + 2 * m) s1 = Inr s' \<and> only_changes x s1 s'"
      using "1.prems" True by (intro "1.IH") (auto simp: poly_at_only_changes [OF oc1])
    then obtain s' where s': "bwd_loop_i h n q x m index (i + 2 * m) s1 = Inr s'"
      "only_changes x s1 s'" by blast
    have "bwd_loop_i h n q x m index i s = Inr s'"
      using True "1.prems"(5) body s'(1) by (subst bwd_loop_i.simps) simp
    with only_changes_trans [OF oc1 s'(2)] show ?thesis by blast
  qed
qed

lemma bwd_loop_j_ok:
  assumes "poly_at n x s" and "poly_at n W_rev s" and "0 \<le> index" and "index < int n"
    and "0 < m" and "(2 * m) dvd n" and "step \<le> n"
  shows "\<exists>s'. bwd_loop_j h n q x step m index j s = Inr s' \<and> only_changes x s s'"
  using assms
proof (induction h n q x step m index j s rule: bwd_loop_j.induct)
  case (1 h n q x step m index j s)
  show ?case
  proof (cases "j < m")
    case False
    then show ?thesis
      by (simp add: bwd_loop_j.simps only_changes_refl)
  next
    case True
    then have "j mod (2 * m) < m" by simp
    with "1.prems" obtain s1 where s1: "bwd_loop_i h n q x m index j s = Inr s1"
      "only_changes x s s1"
      using bwd_loop_i_ok [of n x s index m j h q] by blast
    define index' where "index' = mod_js h (index + (int n - int step)) (int n)"
    have "0 < n" using "1.prems" by (auto elim: dvdE)
    then have idx: "0 \<le> index' \<and> index' < int n"
      unfolding index'_def using "1.prems" by (intro mod_js_range) auto
    have "\<exists>s'. bwd_loop_j h n q x step m index' (j + 1) s1 = Inr s' \<and> only_changes x s1 s'"
      unfolding index'_def using "1.prems" True idx
      by (intro "1.IH") (auto simp: poly_at_only_changes [OF s1(2)] index'_def)
    then obtain s' where s': "bwd_loop_j h n q x step m index' (j + 1) s1 = Inr s'"
      "only_changes x s1 s'" by blast
    have "bwd_loop_j h n q x step m index j s = Inr s'"
      using True s1(1) s'(1) by (subst bwd_loop_j.simps) (simp add: index'_def)
    with only_changes_trans [OF s1(2) s'(2)] show ?thesis by blast
  qed
qed

lemma bwd_loop_m_ok:
  assumes "poly_at (2 ^ k) x s" and "poly_at (2 ^ k) W_rev s" and "e + d = k" and "step \<le> 2 ^ k"
  shows "\<exists>s'. bwd_loop_m h (2 ^ k) q x step (2 ^ e) s = Inr s' \<and> only_changes x s s'"
  using assms
proof (induction d arbitrary: e step s)
  case 0
  then have "e = k" by simp
  then show ?case
    by (simp add: bwd_loop_m.simps only_changes_refl)
next
  case (Suc d)
  then have ek: "e < k" by simp
  then have lt: "(2::nat) ^ e < 2 ^ k" by simp
  have "(2::nat) ^ Suc e dvd 2 ^ k"
    using ek by (intro le_imp_power_dvd) simp
  then have dvd: "2 * 2 ^ e dvd (2::nat) ^ k" by simp
  with Suc.prems obtain s1 where
    s1: "bwd_loop_j h (2 ^ k) q x step (2 ^ e) 0 0 s = Inr s1" "only_changes x s s1"
    using bwd_loop_j_ok [of "2 ^ k" x s 0 "2 ^ e" step h q 0] by auto
  have "\<exists>s'. bwd_loop_m h (2 ^ k) q x (step div 2) (2 ^ Suc e) s1 = Inr s' \<and> only_changes x s1 s'"
    using Suc.prems by (intro Suc.IH) (auto simp: poly_at_only_changes [OF s1(2)])
  then obtain s' where s': "bwd_loop_m h (2 ^ k) q x (step div 2) (2 ^ Suc e) s1 = Inr s'"
    "only_changes x s1 s'" by blast
  have "bwd_loop_m h (2 ^ k) q x step (2 ^ e) s = Inr s'"
    using s1(1) s'(1) lt by (subst bwd_loop_m.simps) simp
  with only_changes_trans [OF s1(2) s'(2)] show ?case by blast
qed

lemma fftBackward_ok:
  assumes "poly_at (2 ^ k) x s" and "poly_at (2 ^ k) W_rev s"
  shows "\<exists>s'. fftBackward h (2 ^ k) q x s = Inr s' \<and> only_changes x s s'"
proof -
  have "\<exists>s'. bwd_loop_m h (2 ^ k) q x (2 ^ k div 2) (2 ^ 0) s = Inr s' \<and> only_changes x s s'"
    using assms by (intro bwd_loop_m_ok [where d = k]) auto
  then show ?thesis
    by (simp add: fftBackward_def)
qed

text \<open>
  C10. On an array of length \<open>n\<close> both transforms return: no access leaves the array
  (neither the pair index \<open>i + m\<close> nor the index into the twiddle table), and no loop
  stalls. They change the contents of that one array and keep its length. This holds
  for the \<^verbatim>\<open>big-integer\<close> copies and for the native copy.
\<close>

theorem transforms_in_bounds:
  assumes "poly_at rlwe_n x s" and "poly_at rlwe_n W s" and "poly_at rlwe_n W_rev s"
  shows "(\<exists>s'. fftForward h rlwe_n rlwe_q x s = Inr s' \<and> only_changes x s s' \<and> poly_at rlwe_n x s')
       \<and> (\<exists>s'. fftBackward h rlwe_n rlwe_q x s = Inr s' \<and> only_changes x s s' \<and> poly_at rlwe_n x s')"
proof -
  have n: "rlwe_n = 2 ^ 10"
    by (simp add: rlwe_n_def)
  obtain s1 where s1: "fftForward h rlwe_n rlwe_q x s = Inr s1" "only_changes x s s1"
    using fftForward_ok [of 10 x s h rlwe_q] assms unfolding n by blast
  obtain s2 where s2: "fftBackward h rlwe_n rlwe_q x s = Inr s2" "only_changes x s s2"
    using fftBackward_ok [of 10 x s h rlwe_q] assms unfolding n by blast
  show ?thesis
    using s1 s2 assms(1) by (simp add: poly_at_only_changes)
qed

theorem transforms_in_bounds_witness:
  "poly_at rlwe_n 2 (snd (alloc (replicate 1024 7) (startup rlwe_n rlwe_q)))
   \<and> (\<exists>s'. fftForward Native rlwe_n rlwe_q 2 (snd (alloc (replicate 1024 7) (startup rlwe_n rlwe_q))) = Inr s')
   \<and> (\<exists>s'. fftBackward BigInteger rlwe_n rlwe_q 2 (snd (alloc (replicate 1024 7) (startup rlwe_n rlwe_q))) = Inr s')"
proof -
  let ?s = "snd (alloc (replicate 1024 7) (startup rlwe_n rlwe_q))"
  have a: "poly_at rlwe_n 2 ?s"
    by (simp add: poly_at_def alloc_def startup_def rlwe_n_def)
  have b: "poly_at rlwe_n W ?s"
    by (simp add: poly_at_def alloc_def startup_def W_def)
  have c: "poly_at rlwe_n W_rev ?s"
    by (simp add: poly_at_def alloc_def startup_def W_rev_def)
  from transforms_in_bounds [OF a b c, of Native] transforms_in_bounds [OF a b c, of BigInteger] a
  show ?thesis by blast
qed

section \<open>The modular helpers at concrete arguments\<close>

text \<open>
  C3. In the \<^verbatim>\<open>big-integer\<close> copies a difference below zero stays below zero:
  \<^verbatim>\<open>subMod(1, 2, q)\<close> and \<^verbatim>\<open>mod(-1, q)\<close> are \<open>-1\<close>, outside \<open>[0, q)\<close>. The native copy
  returns \<open>q - 1 = 40960\<close> for both.
\<close>

theorem subMod_big_integer_negative:
  "subMod BigInteger 1 2 rlwe_q = - 1 \<and> mod_js BigInteger (- 1) rlwe_q = - 1
   \<and> subMod Native 1 2 rlwe_q = 40960 \<and> mod_js Native (- 1) rlwe_q = 40960"
  by (simp add: js_rem_def rlwe_q_def)

section \<open>What parameter validation accepts\<close>

text \<open>
  Trial division up to the square root decides primality, and \<^verbatim>\<open>n & (n - 1)\<close> is zero
  exactly for the powers of two (for positive \<open>n\<close> below \<open>2^31\<close>, where \<^verbatim>\<open>&\<close> sees the
  number itself). So \<^verbatim>\<open>validateParameters\<close> accepts exactly the powers of two \<open>n\<close> with a
  prime \<open>q\<close> that is at least \<open>n\<close>; against the bound "larger than \<open>n\<close>" this differs at
  \<open>n = q = 2\<close> only.
\<close>

lemma js_rem_zero_iff:
  assumes "0 < d"
  shows "js_rem x d = 0 \<longleftrightarrow> d dvd x"
proof (cases "0 \<le> x")
  case True
  with assms show ?thesis
    by (simp add: js_rem_nonneg dvd_eq_mod_eq_0)
next
  case False
  with assms have "js_rem x d = - ((- x) mod d)"
    by (simp add: js_rem_neg)
  then have "js_rem x d = 0 \<longleftrightarrow> d dvd (- x)"
    by (simp add: dvd_eq_mod_eq_0)
  then show ?thesis
    by simp
qed

lemma isPrime_loop_iff:
  assumes "2 \<le> i"
  shows "isPrime_loop num i \<longleftrightarrow> (\<forall>d. i \<le> d \<and> d * d \<le> num \<longrightarrow> \<not> d dvd num)"
  using assms
proof (induction num i rule: isPrime_loop.induct)
  case (1 num i)
  show ?case
  proof (cases "i * i \<le> num")
    case False
    have "\<not> d * d \<le> num" if "i \<le> d" for d
    proof -
      have "i * i \<le> d * d"
        using that "1.prems" by (intro mult_mono) auto
      with False show ?thesis by simp
    qed
    with False show ?thesis
      by (subst isPrime_loop.simps) auto
  next
    case True
    show ?thesis
    proof (cases "js_rem num i = 0")
      case zero: True
      then have "i dvd num"
        using "1.prems" by (simp add: js_rem_zero_iff)
      with True zero show ?thesis
        by (subst isPrime_loop.simps) auto
    next
      case nonzero: False
      then have nd: "\<not> i dvd num"
        using "1.prems" by (simp add: js_rem_zero_iff)
      have "isPrime_loop num (i + 1) \<longleftrightarrow> (\<forall>d. i + 1 \<le> d \<and> d * d \<le> num \<longrightarrow> \<not> d dvd num)"
        using True nonzero "1.prems" by (intro "1.IH") auto
      moreover have "(\<forall>d. i + 1 \<le> d \<and> d * d \<le> num \<longrightarrow> \<not> d dvd num)
                     \<longleftrightarrow> (\<forall>d. i \<le> d \<and> d * d \<le> num \<longrightarrow> \<not> d dvd num)"
      proof
        assume a: "\<forall>d. i + 1 \<le> d \<and> d * d \<le> num \<longrightarrow> \<not> d dvd num"
        show "\<forall>d. i \<le> d \<and> d * d \<le> num \<longrightarrow> \<not> d dvd num"
        proof (intro allI impI)
          fix d assume d: "i \<le> d \<and> d * d \<le> num"
          show "\<not> d dvd num"
          proof (cases "d = i")
            case True with nd show ?thesis by simp
          next
            case False with d a show ?thesis by auto
          qed
        qed
      next
        assume "\<forall>d. i \<le> d \<and> d * d \<le> num \<longrightarrow> \<not> d dvd num"
        then show "\<forall>d. i + 1 \<le> d \<and> d * d \<le> num \<longrightarrow> \<not> d dvd num"
          by auto
      qed
      ultimately show ?thesis
        using True nonzero by (subst isPrime_loop.simps) simp
    qed
  qed
qed

lemma isPrime_iff: "isPrime num \<longleftrightarrow> is_prime num"
proof (cases "num < 2")
  case True
  then show ?thesis
    by (simp add: isPrime_def is_prime_def)
next
  case False
  have "(\<forall>d. 2 \<le> d \<and> d * d \<le> num \<longrightarrow> \<not> d dvd num) \<longleftrightarrow> (\<forall>d. 2 \<le> d \<and> d < num \<longrightarrow> \<not> d dvd num)"
  proof
    assume a: "\<forall>d. 2 \<le> d \<and> d * d \<le> num \<longrightarrow> \<not> d dvd num"
    show "\<forall>d. 2 \<le> d \<and> d < num \<longrightarrow> \<not> d dvd num"
    proof (intro allI impI notI)
      fix d assume d: "2 \<le> d \<and> d < num" and dn: "d dvd num"
      from dn obtain e where e: "num = d * e" ..
      have e2: "2 \<le> e"
      proof (rule ccontr)
        assume "\<not> 2 \<le> e"
        then have "e \<le> 1" by simp
        then have "d * e \<le> d * 1"
          using d by (intro mult_left_mono) auto
        with e d show False by simp
      qed
      from e have "e dvd num" by simp
      have "d * d \<le> num \<or> e * e \<le> num"
      proof (cases "d \<le> e")
        case True
        then have "d * d \<le> d * e"
          using d by (intro mult_left_mono) auto
        with e show ?thesis by simp
      next
        case False
        then have "e * e \<le> d * e"
          using e2 by (intro mult_right_mono) auto
        with e show ?thesis by simp
      qed
      with a d e2 dn \<open>e dvd num\<close> show False by blast
    qed
  next
    assume a: "\<forall>d. 2 \<le> d \<and> d < num \<longrightarrow> \<not> d dvd num"
    show "\<forall>d. 2 \<le> d \<and> d * d \<le> num \<longrightarrow> \<not> d dvd num"
    proof (intro allI impI)
      fix d assume d: "2 \<le> d \<and> d * d \<le> num"
      then have "2 * d \<le> d * d"
        by (intro mult_right_mono) auto
      with d have "d < num" by linarith
      with a d show "\<not> d dvd num" by simp
    qed
  qed
  with False show ?thesis
    by (simp add: isPrime_def is_prime_def isPrime_loop_iff)
qed

lemma power_of_two_even:
  fixes a :: int
  shows "(\<exists>k. 2 * a = 2 ^ k) \<longleftrightarrow> (\<exists>k. a = 2 ^ k)"
proof
  assume "\<exists>k. 2 * a = 2 ^ k"
  then obtain k where k: "2 * a = 2 ^ k" ..
  show "\<exists>k. a = 2 ^ k"
  proof (cases k)
    case 0
    with k have "2 * a = 1" by simp
    then have "even (1::int)" by (metis dvd_triv_left)
    then show ?thesis by simp
  next
    case (Suc j)
    with k have "a = 2 ^ j" by simp
    then show ?thesis ..
  qed
next
  assume "\<exists>k. a = 2 ^ k"
  then obtain k where "a = 2 ^ k" ..
  then have "2 * a = 2 ^ Suc k" by simp
  then show "\<exists>k. 2 * a = 2 ^ k" ..
qed

lemma power_of_two_odd:
  fixes a :: int
  shows "(\<exists>k. 2 * a + 1 = 2 ^ k) \<longleftrightarrow> a = 0"
proof
  assume "\<exists>k. 2 * a + 1 = 2 ^ k"
  then obtain k where k: "2 * a + 1 = 2 ^ k" ..
  show "a = 0"
  proof (cases k)
    case 0
    with k show ?thesis by simp
  next
    case (Suc j)
    with k have "2 * a + 1 = 2 * 2 ^ j" by simp
    then have "even (2 * a + 1)" by (metis dvd_triv_left)
    then show ?thesis by simp
  qed
next
  assume "a = 0"
  then have "2 * a + 1 = 2 ^ 0" by simp
  then show "\<exists>k. 2 * a + 1 = 2 ^ k" ..
qed

lemma and_pred_zero_iff:
  fixes n :: int
  assumes "0 < n"
  shows "n AND (n - 1) = 0 \<longleftrightarrow> (\<exists>k. n = 2 ^ k)"
  using assms
proof (induction "nat n" arbitrary: n rule: less_induct)
  case less
  show ?case
  proof (cases "even n")
    case True
    then obtain a where a: "n = 2 * a" by (auto elim: evenE)
    with less.prems have a0: "0 < a" by simp
    have "(n - 1) div 2 = a - 1" "n div 2 = a"
      using a by simp_all
    then have "n AND (n - 1) = 2 * (a AND (a - 1))"
      using True by (subst and_int_rec) simp
    moreover have "a AND (a - 1) = 0 \<longleftrightarrow> (\<exists>k. a = 2 ^ k)"
      using a a0 by (intro less.hyps) auto
    ultimately show ?thesis
      unfolding a by (simp add: power_of_two_even)
  next
    case False
    then obtain a where a: "n = 2 * a + 1" by (auto elim: oddE)
    have "(n - 1) div 2 = a" "n div 2 = a"
      using a by simp_all
    then have "n AND (n - 1) = 2 * a"
      using a by (subst and_int_rec) simp
    then show ?thesis
      unfolding a by (simp add: power_of_two_odd)
  qed
qed

lemma validateParameters_accepts_iff:
  assumes "n < 2 ^ 31"
  shows "validateParameters n q = Inr () \<longleftrightarrow> (\<exists>k. n = 2 ^ k) \<and> is_prime q \<and> n \<le> q"
proof (cases "0 < n")
  case False
  then have "\<not> (\<exists>k. n = 2 ^ k)"
    by auto
  with False show ?thesis
    by (simp add: validateParameters_def)
next
  case True
  with assms have "signed_take_bit 31 n = n" "signed_take_bit 31 (n - 1) = n - 1"
    by (simp_all add: signed_take_bit_int_eq_self)
  then have "js_and n (n - 1) = 0 \<longleftrightarrow> (\<exists>k. n = 2 ^ k)"
    using and_pred_zero_iff [OF True] by (simp add: js_and_def)
  with True show ?thesis
    by (auto simp: validateParameters_def isPrime_iff)
qed


lemma prime_power_of_two:
  assumes "is_prime (2 ^ k)"
  shows "(2::int) ^ k = 2"
proof (cases k)
  case 0
  with assms show ?thesis
    by (simp add: is_prime_def)
next
  case (Suc j)
  show ?thesis
  proof (cases j)
    case 0
    with Suc show ?thesis by simp
  next
    case (Suc i)
    with \<open>k = Suc j\<close> have "(2::int) ^ k = 2 * (2 * 2 ^ i)" by simp
    moreover have "(1::int) \<le> 2 ^ i" by simp
    ultimately have "(2::int) < 2 ^ k"
      by linarith
    moreover have "(2::int) dvd 2 ^ k"
      using \<open>k = Suc j\<close> by simp
    ultimately have "(2::int) < 2 ^ k" "(2::int) dvd 2 ^ k"
      by simp_all
    with assms show ?thesis
      by (auto simp: is_prime_def)
  qed
qed

lemma validateParameters_against_strict_bound:
  assumes "n < 2 ^ 31"
  shows "validateParameters n q = Inr ()
         \<longleftrightarrow> ((\<exists>k. n = 2 ^ k) \<and> is_prime q \<and> n < q) \<or> (n = 2 \<and> q = 2)"
proof -
  have two: "is_prime 2"
    by (auto simp: is_prime_def)
  have "(2::int) = 2 ^ 1"
    by simp
  then have pow: "\<exists>k. (2::int) = 2 ^ k" ..
  have "n = 2" if "n = 2 ^ k" "is_prime q" "n = q" for k
    using that prime_power_of_two [of k] by simp
  with two pow show ?thesis
    unfolding validateParameters_accepts_iff [OF assms] by (auto simp: less_le)
qed

section \<open>Parameter validation at concrete arguments\<close>


section \<open>The loops compute the list functions\<close>

subsection \<open>Positions inside a block of two columns\<close>

lemma same_block_same_offset:
  fixes p i d :: nat
  assumes "p div d = i div d" and "p mod d = i mod d"
  shows "p = i"
  using assms by (metis div_mult_mod_eq)

lemma block_decomp:
  fixes d b r :: nat
  assumes "r < d"
  shows "(d * b + r) div d = b \<and> (d * b + r) mod d = r"
  using assms by simp

lemma upper_half:
  fixes i m :: nat
  assumes "i mod (2 * m) < m"
  shows "(i + m) div (2 * m) = i div (2 * m) \<and> (i + m) mod (2 * m) = i mod (2 * m) + m"
proof -
  have "i + m = 2 * m * (i div (2 * m)) + (i mod (2 * m) + m)"
    by simp
  moreover have "i mod (2 * m) + m < 2 * m"
    using assms by simp
  ultimately show ?thesis
    using block_decomp [of "i mod (2 * m) + m" "2 * m" "i div (2 * m)"] by simp
qed

lemma lower_half:
  fixes p m :: nat
  assumes "m \<le> p mod (2 * m)"
  shows "(p - m) div (2 * m) = p div (2 * m) \<and> (p - m) mod (2 * m) = p mod (2 * m) - m"
proof (cases "m = 0")
  case True
  then show ?thesis by simp
next
  case False
  have le: "p mod (2 * m) \<le> p"
    by simp
  have "p = 2 * m * (p div (2 * m)) + p mod (2 * m)"
    by simp
  then have "p - m = 2 * m * (p div (2 * m)) + (p mod (2 * m) - m)"
    using assms by linarith
  moreover have "p mod (2 * m) - m < 2 * m"
    using False by (simp add: less_imp_diff_less) 
  ultimately show ?thesis
    using block_decomp [of "p mod (2 * m) - m" "2 * m" "p div (2 * m)"] by simp
qed

lemma length_column [simp]: "length (column bf w m i xs) = length xs"
  by (simp add: column_def)

lemma column_step:
  assumes im: "i + m < length xs" and r: "i mod (2 * m) < m"
  shows "column bf w m (i + 2 * m)
           (xs[i := fst (bf (xs ! i) (xs ! (i + m)) w), i + m := snd (bf (xs ! i) (xs ! (i + m)) w)])
         = column bf w m i xs"
proof (rule nth_equalityI)
  show "length (column bf w m (i + 2 * m)
           (xs[i := fst (bf (xs ! i) (xs ! (i + m)) w), i + m := snd (bf (xs ! i) (xs ! (i + m)) w)]))
       = length (column bf w m i xs)"
    by simp
next
  fix p
  define d where "d = 2 * m"
  define ys where "ys = xs[i := fst (bf (xs ! i) (xs ! (i + m)) w),
                          i + m := snd (bf (xs ! i) (xs ! (i + m)) w)]"
  assume "p < length (column bf w m (i + 2 * m)
           (xs[i := fst (bf (xs ! i) (xs ! (i + m)) w), i + m := snd (bf (xs ! i) (xs ! (i + m)) w)]))"
  then have p: "p < length xs" by simp
  from r have m: "0 < m" by simp
  then have d: "0 < d" by (simp add: d_def)
  have next_div: "(i + d) div d = i div d + 1"
    using d by (subst div_add_self2) auto
  have next_mod: "(i + d) mod d = i mod d"
    by simp
  have up: "(i + m) div d = i div d" "(i + m) mod d = i mod d + m"
    using upper_half [OF r] by (simp_all add: d_def)
  have ys_i: "ys ! i = fst (bf (xs ! i) (xs ! (i + m)) w)"
    using im m by (simp add: ys_def)
  have ys_im: "ys ! (i + m) = snd (bf (xs ! i) (xs ! (i + m)) w)"
    using im by (simp add: ys_def)
  have ys_other: "ys ! k = xs ! k" if "k div d \<noteq> i div d" for k
  proof -
    from that have "k \<noteq> i" by auto
    moreover from that up(1) have "k \<noteq> i + m" by auto
    ultimately show ?thesis by (simp add: ys_def)
  qed
  have lhs: "column bf w m (i + 2 * m) ys ! p =
     (if i div d + 1 \<le> p div d \<and> p mod d = i mod d
      then fst (bf (ys ! p) (ys ! (p + m)) w)
      else if i div d + 1 \<le> p div d \<and> p mod d = i mod d + m
      then snd (bf (ys ! (p - m)) (ys ! p) w)
      else ys ! p)"
    using p next_div next_mod by (simp add: column_def ys_def d_def)
  have rhs: "column bf w m i xs ! p =
     (if i div d \<le> p div d \<and> p mod d = i mod d
      then fst (bf (xs ! p) (xs ! (p + m)) w)
      else if i div d \<le> p div d \<and> p mod d = i mod d + m
      then snd (bf (xs ! (p - m)) (xs ! p) w)
      else xs ! p)"
    using p by (simp add: column_def d_def)
  consider (before) "p div d < i div d" | (same) "p div d = i div d" | (after) "i div d < p div d"
    by linarith
  then have "column bf w m (i + 2 * m) ys ! p = column bf w m i xs ! p"
  proof cases
    case before
    then show ?thesis
      unfolding lhs rhs using ys_other [of p] by simp
  next
    case same
    consider (first) "p mod d = i mod d" | (second) "p mod d = i mod d + m"
      | (neither) "p mod d \<noteq> i mod d" "p mod d \<noteq> i mod d + m"
      by blast
    then show ?thesis
    proof cases
      case first
      with same have "p = i" by (intro same_block_same_offset [of p d i]) auto
      then show ?thesis
        unfolding lhs rhs using ys_i by simp
    next
      case second
      with same up have "p = i + m" by (intro same_block_same_offset [of p d "i + m"]) auto
      then show ?thesis
        unfolding lhs rhs using ys_im m up by simp
    next
      case neither
      then have "p \<noteq> i" "p \<noteq> i + m" using up by auto
      then have "ys ! p = xs ! p" by (simp add: ys_def)
      with neither same show ?thesis
        unfolding lhs rhs by simp
    qed
  next
    case after
    have here: "ys ! p = xs ! p"
      using after by (intro ys_other) simp
    have above: "ys ! (p + m) = xs ! (p + m)" if "p mod d = i mod d"
    proof -
      from that r have "p mod (2 * m) < m" by (simp add: d_def)
      from upper_half [OF this] have "(p + m) div d = p div d" by (simp add: d_def)
      with after show ?thesis by (intro ys_other) simp
    qed
    have below: "ys ! (p - m) = xs ! (p - m)" if "p mod d = i mod d + m"
    proof -
      from that have "m \<le> p mod (2 * m)" by (simp add: d_def)
      from lower_half [OF this] have "(p - m) div d = p div d" by (simp add: d_def)
      with after show ?thesis by (intro ys_other) simp
    qed
    from after show ?thesis
      unfolding lhs rhs using here above below by simp
  qed
  then show "column bf w m (i + 2 * m)
           (xs[i := fst (bf (xs ! i) (xs ! (i + m)) w), i + m := snd (bf (xs ! i) (xs ! (i + m)) w)]) ! p
         = column bf w m i xs ! p"
    by (simp add: ys_def)
qed

lemma column_done:
  assumes "length xs \<le> i" and "i mod (2 * m) < m"
  shows "column bf w m i xs = xs"
proof (rule nth_equalityI)
  show "length (column bf w m i xs) = length xs" by simp
next
  fix p
  assume "p < length (column bf w m i xs)"
  then have p: "p < length xs" by simp
  with assms have pi: "p < i" by simp
  then have le: "p div (2 * m) \<le> i div (2 * m)"
    by (intro div_le_mono) simp
  have a: "\<not> (i div (2 * m) \<le> p div (2 * m) \<and> p mod (2 * m) = i mod (2 * m))"
  proof
    assume "i div (2 * m) \<le> p div (2 * m) \<and> p mod (2 * m) = i mod (2 * m)"
    with le have "p = i" by (intro same_block_same_offset [of p "2 * m" i]) auto
    with pi show False by simp
  qed
  have b: "\<not> (i div (2 * m) \<le> p div (2 * m) \<and> p mod (2 * m) = i mod (2 * m) + m)"
  proof
    assume "i div (2 * m) \<le> p div (2 * m) \<and> p mod (2 * m) = i mod (2 * m) + m"
    with le upper_half [OF assms(2)] have "p = i + m"
      by (intro same_block_same_offset [of p "2 * m" "i + m"]) auto
    with pi show False by simp
  qed
  show "column bf w m i xs ! p = xs ! p"
    using p a b by (auto simp: column_def)
qed

lemma length_columns [simp]: "length (columns bf adv tw m j index xs) = length xs"
  by (simp add: columns_def)

lemma column_first:
  assumes "j < m" and "p < length xs"
  shows "column bf w m j xs ! p =
     (if p mod (2 * m) = j then fst (bf (xs ! p) (xs ! (p + m)) w)
      else if p mod (2 * m) = j + m then snd (bf (xs ! (p - m)) (xs ! p) w)
      else xs ! p)"
  using assms by (simp add: column_def)

lemma columns_step:
  assumes jm: "j < m" and dvd: "(2 * m) dvd length xs"
  shows "columns bf adv tw m (j + 1) (adv index) (column bf (tw ! nat index) m j xs)
         = columns bf adv tw m j index xs"
proof (rule nth_equalityI)
  show "length (columns bf adv tw m (j + 1) (adv index) (column bf (tw ! nat index) m j xs))
        = length (columns bf adv tw m j index xs)"
    by simp
next
  fix p
  define cs where "cs = column bf (tw ! nat index) m j xs"
  define r where "r = p mod (2 * m)"
  assume "p < length (columns bf adv tw m (j + 1) (adv index) (column bf (tw ! nat index) m j xs))"
  then have p: "p < length xs" by simp
  have pm: "p + m < length xs" if "r < m"
    using dvd p that by (intro pair_in_range) (auto simp: r_def)
  have r2: "r < 2 * m"
    using jm by (simp add: r_def)
  have cs_at: "cs ! k =
     (if k mod (2 * m) = j then fst (bf (xs ! k) (xs ! (k + m)) (tw ! nat index))
      else if k mod (2 * m) = j + m then snd (bf (xs ! (k - m)) (xs ! k) (tw ! nat index))
      else xs ! k)" if "k < length xs" for k
    unfolding cs_def using jm that by (rule column_first)
  have lhs: "columns bf adv tw m (j + 1) (adv index) cs ! p =
     (if j + 1 \<le> r \<and> r < m
      then fst (bf (cs ! p) (cs ! (p + m)) (tw ! nat ((adv ^^ (r - (j + 1))) (adv index))))
      else if m + (j + 1) \<le> r
      then snd (bf (cs ! (p - m)) (cs ! p) (tw ! nat ((adv ^^ (r - m - (j + 1))) (adv index))))
      else cs ! p)"
    using p by (simp add: columns_def cs_def r_def)
  have rhs: "columns bf adv tw m j index xs ! p =
     (if j \<le> r \<and> r < m
      then fst (bf (xs ! p) (xs ! (p + m)) (tw ! nat ((adv ^^ (r - j)) index)))
      else if m + j \<le> r
      then snd (bf (xs ! (p - m)) (xs ! p) (tw ! nat ((adv ^^ (r - m - j)) index)))
      else xs ! p)"
    using p by (simp add: columns_def r_def)
  have shift: "(adv ^^ k) (adv index) = (adv ^^ Suc k) index" for k
    by (simp add: funpow_swap1)
  consider (this_lo) "r = j" | (this_hi) "r = j + m" | (later_lo) "j < r" "r < m"
    | (later_hi) "m + j < r" | (done_lo) "r < j" | (done_hi) "m \<le> r" "r < m + j"
    by linarith
  then have "columns bf adv tw m (j + 1) (adv index) cs ! p = columns bf adv tw m j index xs ! p"
  proof cases
    case this_lo
    then show ?thesis
      unfolding lhs rhs using jm cs_at [OF p] by (simp add: r_def)
  next
    case this_hi
    then show ?thesis
      unfolding lhs rhs using jm cs_at [OF p] by (simp add: r_def)
  next
    case later_lo
    have "p mod (2 * m) < m" using later_lo by (simp add: r_def)
    from upper_half [OF this] have "(p + m) mod (2 * m) = r + m" by (simp add: r_def)
    with later_lo jm have "cs ! (p + m) = xs ! (p + m)"
      using cs_at [OF pm] by simp
    moreover have "cs ! p = xs ! p"
      using cs_at [OF p] later_lo by (simp add: r_def)
    moreover have "(adv ^^ (r - (j + 1))) (adv index) = (adv ^^ (r - j)) index"
      using later_lo by (simp add: shift Suc_diff_Suc)
    ultimately show ?thesis
      unfolding lhs rhs using later_lo by simp
  next
    case later_hi
    have "m \<le> p mod (2 * m)" using later_hi by (simp add: r_def)
    from lower_half [OF this] have "(p - m) mod (2 * m) = r - m" by (simp add: r_def)
    moreover have "p - m < length xs"
      using p by simp
    moreover have "r - m \<noteq> j" "r - m \<noteq> j + m"
      using later_hi r2 by simp_all
    ultimately have "cs ! (p - m) = xs ! (p - m)"
      using cs_at [of "p - m"] by simp
    moreover have "cs ! p = xs ! p"
      using cs_at [OF p] later_hi jm by (simp add: r_def)
    moreover have "(adv ^^ (r - m - (j + 1))) (adv index) = (adv ^^ (r - m - j)) index"
      using later_hi by (simp add: shift Suc_diff_Suc)
    ultimately show ?thesis
      unfolding lhs rhs using later_hi jm by simp
  next
    case done_lo
    then show ?thesis
      unfolding lhs rhs using jm cs_at [OF p] by (simp add: r_def)
  next
    case done_hi
    then show ?thesis
      unfolding lhs rhs using jm cs_at [OF p] by (simp add: r_def)
  qed
  then show "columns bf adv tw m (j + 1) (adv index) (column bf (tw ! nat index) m j xs) ! p
             = columns bf adv tw m j index xs ! p"
    by (simp add: cs_def)
qed

lemma columns_done:
  assumes "0 < m"
  shows "columns bf adv tw m m index xs = xs"
proof (rule nth_equalityI)
  show "length (columns bf adv tw m m index xs) = length xs" by simp
next
  fix p
  assume "p < length (columns bf adv tw m m index xs)"
  then have p: "p < length xs" by simp
  have "p mod (2 * m) < 2 * m"
    using assms by simp
  then show "columns bf adv tw m m index xs ! p = xs ! p"
    using p by (simp add: columns_def)
qed

lemma state_update_twice:
  "(s\<lparr>heap := (heap s)[x := xs]\<rparr>)\<lparr>heap := (heap (s\<lparr>heap := (heap s)[x := xs]\<rparr>))[x := ys]\<rparr>
   = s\<lparr>heap := (heap s)[x := ys]\<rparr>"
  by simp

lemma state_update_same: "x < length (heap s) \<Longrightarrow> s\<lparr>heap := (heap s)[x := heap s ! x]\<rparr> = s"
  by simp

lemma fwd_loop_i_eq:
  assumes "poly_at n x s" and "poly_at n W s" and "x \<noteq> W" and "0 \<le> index" and "index < int n"
    and "0 < m" and "(2 * m) dvd n" and "i mod (2 * m) < m"
  shows "fwd_loop_i h n q x m index i s =
     Inr (s\<lparr>heap := (heap s)[x := column (fwd_pair h q) (heap s ! W ! nat index) m i (heap s ! x)]\<rparr>)"
  using assms
proof (induction h n q x m index i s rule: fwd_loop_i.induct)
  case (1 h n q x m index i s)
  define w where "w = heap s ! W ! nat index"
  define xs where "xs = heap s ! x"
  have len: "length xs = n" and x: "x < length (heap s)"
    using "1.prems"(1) by (simp_all add: poly_at_def xs_def)
  show ?case
  proof (cases "i < n")
    case False
    then have "column (fwd_pair h q) w m i xs = xs"
      using "1.prems"(8) len by (intro column_done) auto
    with False x show ?thesis
      by (simp add: fwd_loop_i.simps w_def xs_def)
  next
    case True
    from "1.prems" True have im: "i + m < n"
      by (intro pair_in_range) auto
    define ys where "ys = xs[i := fst (fwd_pair h q (xs ! i) (xs ! (i + m)) w),
                            i + m := snd (fwd_pair h q (xs ! i) (xs ! (i + m)) w)]"
    define s1 where "s1 = s\<lparr>heap := (heap s)[x := ys]\<rparr>"
    have body: "fwd_body h q x m index i s = Inr s1"
      using fwd_body_eq [of x s i m index h q] "1.prems" im
      by (simp add: poly_at_def s1_def ys_def xs_def w_def fwd_pair_def)
    have oc1: "only_changes x s s1"
      unfolding s1_def by (intro only_changes_update) (simp add: ys_def xs_def)
    have s1_x: "heap s1 ! x = ys" and s1_W: "heap s1 ! W = heap s ! W"
      using x "1.prems"(3) by (simp_all add: s1_def)
    have "fwd_loop_i h n q x m index (i + 2 * m) s1 =
       Inr (s1\<lparr>heap := (heap s1)[x := column (fwd_pair h q) (heap s1 ! W ! nat index) m (i + 2 * m) (heap s1 ! x)]\<rparr>)"
      using "1.prems" True by (intro "1.IH") (auto simp: poly_at_only_changes [OF oc1])
    also have "column (fwd_pair h q) (heap s1 ! W ! nat index) m (i + 2 * m) (heap s1 ! x)
               = column (fwd_pair h q) w m i xs"
      unfolding s1_x s1_W ys_def w_def [symmetric]
      using im len "1.prems"(8) by (intro column_step) auto
    also have "s1\<lparr>heap := (heap s1)[x := column (fwd_pair h q) w m i xs]\<rparr>
               = s\<lparr>heap := (heap s)[x := column (fwd_pair h q) w m i xs]\<rparr>"
      by (simp add: s1_def)
    finally have "fwd_loop_i h n q x m index (i + 2 * m) s1 =
       Inr (s\<lparr>heap := (heap s)[x := column (fwd_pair h q) w m i xs]\<rparr>)" .
    then show ?thesis
      using True "1.prems"(6) body by (subst fwd_loop_i.simps) (simp add: w_def xs_def)
  qed
qed

lemma advance_range:
  assumes "0 < n" and "step \<le> n" and "0 \<le> index"
  shows "0 \<le> advance h n step index \<and> advance h n step index < int n"
  unfolding advance_def using assms by (intro mod_js_range) auto

lemma fwd_loop_j_eq:
  assumes "poly_at n x s" and "poly_at n W s" and "x \<noteq> W" and "0 \<le> index" and "index < int n"
    and "0 < m" and "(2 * m) dvd n" and "step \<le> n" and "j \<le> m"
  shows "fwd_loop_j h n q x step m index j s =
     Inr (s\<lparr>heap := (heap s)[x := columns (fwd_pair h q) (advance h n step) (heap s ! W) m j index
                                     (heap s ! x)]\<rparr>)"
  using assms
proof (induction h n q x step m index j s rule: fwd_loop_j.induct)
  case (1 h n q x step m index j s)
  define tw where "tw = heap s ! W"
  define xs where "xs = heap s ! x"
  have len: "length xs = n" and x: "x < length (heap s)"
    using "1.prems"(1) by (simp_all add: poly_at_def xs_def)
  show ?case
  proof (cases "j < m")
    case False
    with "1.prems"(9) have "j = m" by simp
    then have "columns (fwd_pair h q) (advance h n step) tw m j index xs = xs"
      using "1.prems"(6) by (simp add: columns_done)
    with False x show ?thesis
      by (simp add: fwd_loop_j.simps tw_def xs_def)
  next
    case True
    define ys where "ys = column (fwd_pair h q) (tw ! nat index) m j xs"
    define s1 where "s1 = s\<lparr>heap := (heap s)[x := ys]\<rparr>"
    have "j mod (2 * m) < m"
      using True by simp
    then have inner: "fwd_loop_i h n q x m index j s = Inr s1"
      using "1.prems" fwd_loop_i_eq [of n x s index m j h q]
      by (simp add: s1_def ys_def tw_def xs_def)
    have oc1: "only_changes x s s1"
      unfolding s1_def by (intro only_changes_update) (simp add: ys_def xs_def)
    have s1_x: "heap s1 ! x = ys" and s1_W: "heap s1 ! W = tw"
      using x "1.prems"(3) by (simp_all add: s1_def tw_def)
    define index' where "index' = mod_js h (index + (int n - int step)) (int n)"
    have adv: "index' = advance h n step index"
      by (simp add: index'_def advance_def)
    have "0 < n"
      using "1.prems" by (auto elim: dvdE)
    then have idx: "0 \<le> index'" "index' < int n"
      unfolding adv using "1.prems" advance_range [of n step index h] by simp_all
    have "fwd_loop_j h n q x step m index' (j + 1) s1 =
       Inr (s1\<lparr>heap := (heap s1)[x := columns (fwd_pair h q) (advance h n step) (heap s1 ! W) m
                                        (j + 1) index' (heap s1 ! x)]\<rparr>)"
      unfolding index'_def using "1.prems" True idx
      by (intro "1.IH") (auto simp: poly_at_only_changes [OF oc1] index'_def)
    also have "columns (fwd_pair h q) (advance h n step) (heap s1 ! W) m (j + 1) index' (heap s1 ! x)
               = columns (fwd_pair h q) (advance h n step) tw m j index xs"
      unfolding s1_x s1_W ys_def adv
      using True "1.prems"(7) len by (intro columns_step) auto
    also have "s1\<lparr>heap := (heap s1)[x := columns (fwd_pair h q) (advance h n step) tw m j index xs]\<rparr>
               = s\<lparr>heap := (heap s)[x := columns (fwd_pair h q) (advance h n step) tw m j index xs]\<rparr>"
      by (simp add: s1_def)
    finally have "fwd_loop_j h n q x step m index' (j + 1) s1 =
       Inr (s\<lparr>heap := (heap s)[x := columns (fwd_pair h q) (advance h n step) tw m j index xs]\<rparr>)" .
    then show ?thesis
      using True inner
      by (subst fwd_loop_j.simps) (simp add: tw_def xs_def index'_def)
  qed
qed

lemma fwd_loop_m_eq:
  assumes "poly_at (2 ^ k) x s" and "poly_at (2 ^ k) W s" and "x \<noteq> W" and "e < k"
    and "step * 2 ^ e \<le> 2 ^ k"
  shows "fwd_loop_m h (2 ^ k) q x step (2 ^ e) s =
     Inr (s\<lparr>heap := (heap s)[x := fwd_stages h (2 ^ k) q (heap s ! W) step (2 ^ e) (heap s ! x)]\<rparr>)"
  using assms
proof (induction e arbitrary: step s)
  case 0
  define ys where "ys = fwd_stage h (2 ^ k) q (heap s ! W) step 1 (heap s ! x)"
  have "2 dvd (2::nat) ^ k"
    using "0.prems"(4) by simp
  then have "fwd_loop_j h (2 ^ k) q x step 1 0 0 s = Inr (s\<lparr>heap := (heap s)[x := ys]\<rparr>)"
    using "0.prems" fwd_loop_j_eq [of "2 ^ k" x s 0 1 step 0 h q]
    by (simp add: ys_def fwd_stage_def)
  then have "fwd_loop_m h (2 ^ k) q x step (2 ^ 0) s = Inr (s\<lparr>heap := (heap s)[x := ys]\<rparr>)"
    by (simp add: fwd_loop_m.simps [of _ _ _ _ _ "Suc 0"] fwd_loop_m.simps [of _ _ _ _ _ 0])
  moreover have "fwd_stages h (2 ^ k) q (heap s ! W) step (2 ^ 0) (heap s ! x) = ys"
    by (simp add: fwd_stages.simps [of _ _ _ _ _ "Suc 0"] fwd_stages.simps [of _ _ _ _ _ 0] ys_def)
  ultimately show ?case by simp
next
  case (Suc e)
  define tw where "tw = heap s ! W"
  define ys where "ys = fwd_stage h (2 ^ k) q tw step (2 ^ Suc e) (heap s ! x)"
  define s1 where "s1 = s\<lparr>heap := (heap s)[x := ys]\<rparr>"
  have x: "x < length (heap s)"
    using Suc.prems(1) by (simp add: poly_at_def)
  have "(2::nat) ^ Suc (Suc e) dvd 2 ^ k"
    using Suc.prems(4) by (intro le_imp_power_dvd) simp
  then have dvd: "2 * 2 ^ Suc e dvd (2::nat) ^ k" by simp
  have "step * 1 \<le> step * 2 ^ Suc e"
    by (intro mult_le_mono2) simp
  also have "\<dots> \<le> 2 ^ k"
    by (rule Suc.prems(5))
  finally have "step \<le> 2 ^ k" by simp
  then have cols: "fwd_loop_j h (2 ^ k) q x step (2 ^ Suc e) 0 0 s = Inr s1"
    using Suc.prems dvd fwd_loop_j_eq [of "2 ^ k" x s 0 "2 ^ Suc e" step 0 h q]
    by (simp add: s1_def ys_def fwd_stage_def tw_def)
  have oc1: "only_changes x s s1"
    unfolding s1_def using Suc.prems(1)
    by (intro only_changes_update) (simp add: ys_def fwd_stage_def)
  have s1_x: "heap s1 ! x = ys" and s1_W: "heap s1 ! W = tw"
    using x Suc.prems(3) by (simp_all add: s1_def tw_def)
  have "fwd_loop_m h (2 ^ k) q x (2 * step) (2 ^ e) s1 =
     Inr (s1\<lparr>heap := (heap s1)[x := fwd_stages h (2 ^ k) q (heap s1 ! W) (2 * step) (2 ^ e) (heap s1 ! x)]\<rparr>)"
    using Suc.prems by (intro Suc.IH) (auto simp: poly_at_only_changes [OF oc1])
  also have "fwd_stages h (2 ^ k) q (heap s1 ! W) (2 * step) (2 ^ e) (heap s1 ! x)
             = fwd_stages h (2 ^ k) q tw step (2 ^ Suc e) (heap s ! x)"
    unfolding s1_x s1_W ys_def by (subst (2) fwd_stages.simps) simp
  also have "s1\<lparr>heap := (heap s1)[x := fwd_stages h (2 ^ k) q tw step (2 ^ Suc e) (heap s ! x)]\<rparr>
             = s\<lparr>heap := (heap s)[x := fwd_stages h (2 ^ k) q tw step (2 ^ Suc e) (heap s ! x)]\<rparr>"
    by (simp add: s1_def)
  finally have "fwd_loop_m h (2 ^ k) q x (2 * step) (2 ^ e) s1 =
     Inr (s\<lparr>heap := (heap s)[x := fwd_stages h (2 ^ k) q tw step (2 ^ Suc e) (heap s ! x)]\<rparr>)" .
  then show ?case
    using cols by (subst fwd_loop_m.simps) (simp add: tw_def)
qed

lemma fftForward_eq:
  assumes "poly_at (2 ^ k) x s" and "poly_at (2 ^ k) W s" and "x \<noteq> W"
  shows "fftForward h (2 ^ k) q x s =
     Inr (s\<lparr>heap := (heap s)[x := forward_poly h (2 ^ k) q (heap s ! W) (heap s ! x)]\<rparr>)"
proof (cases k)
  case 0
  then show ?thesis
    using assms(1)
    by (simp add: fftForward_def forward_poly_def fwd_loop_m.simps fwd_stages.simps poly_at_def)
next
  case (Suc e)
  then have "(2::nat) ^ k div 2 = 2 ^ e" by simp
  moreover have "fwd_loop_m h (2 ^ k) q x 1 (2 ^ e) s =
     Inr (s\<lparr>heap := (heap s)[x := fwd_stages h (2 ^ k) q (heap s ! W) 1 (2 ^ e) (heap s ! x)]\<rparr>)"
    using assms Suc by (intro fwd_loop_m_eq) auto
  ultimately show ?thesis
    by (simp add: fftForward_def forward_poly_def)
qed

lemma bwd_loop_i_eq:
  assumes "poly_at n x s" and "poly_at n W_rev s" and "x \<noteq> W_rev" and "0 \<le> index" and "index < int n"
    and "0 < m" and "(2 * m) dvd n" and "i mod (2 * m) < m"
  shows "bwd_loop_i h n q x m index i s =
     Inr (s\<lparr>heap := (heap s)[x := column (bwd_pair h q) (heap s ! W_rev ! nat index) m i (heap s ! x)]\<rparr>)"
  using assms
proof (induction h n q x m index i s rule: bwd_loop_i.induct)
  case (1 h n q x m index i s)
  define w where "w = heap s ! W_rev ! nat index"
  define xs where "xs = heap s ! x"
  have len: "length xs = n" and x: "x < length (heap s)"
    using "1.prems"(1) by (simp_all add: poly_at_def xs_def)
  show ?case
  proof (cases "i < n")
    case False
    then have "column (bwd_pair h q) w m i xs = xs"
      using "1.prems"(8) len by (intro column_done) auto
    with False x show ?thesis
      by (simp add: bwd_loop_i.simps w_def xs_def)
  next
    case True
    from "1.prems" True have im: "i + m < n"
      by (intro pair_in_range) auto
    define ys where "ys = xs[i := fst (bwd_pair h q (xs ! i) (xs ! (i + m)) w),
                            i + m := snd (bwd_pair h q (xs ! i) (xs ! (i + m)) w)]"
    define s1 where "s1 = s\<lparr>heap := (heap s)[x := ys]\<rparr>"
    have body: "bwd_body h q x m index i s = Inr s1"
      using bwd_body_eq [of x s i m index h q] "1.prems" im
      by (simp add: poly_at_def s1_def ys_def xs_def w_def bwd_pair_def)
    have oc1: "only_changes x s s1"
      unfolding s1_def by (intro only_changes_update) (simp add: ys_def xs_def)
    have s1_x: "heap s1 ! x = ys" and s1_W: "heap s1 ! W_rev = heap s ! W_rev"
      using x "1.prems"(3) by (simp_all add: s1_def)
    have "bwd_loop_i h n q x m index (i + 2 * m) s1 =
       Inr (s1\<lparr>heap := (heap s1)[x := column (bwd_pair h q) (heap s1 ! W_rev ! nat index) m (i + 2 * m) (heap s1 ! x)]\<rparr>)"
      using "1.prems" True by (intro "1.IH") (auto simp: poly_at_only_changes [OF oc1])
    also have "column (bwd_pair h q) (heap s1 ! W_rev ! nat index) m (i + 2 * m) (heap s1 ! x)
               = column (bwd_pair h q) w m i xs"
      unfolding s1_x s1_W ys_def w_def [symmetric]
      using im len "1.prems"(8) by (intro column_step) auto
    also have "s1\<lparr>heap := (heap s1)[x := column (bwd_pair h q) w m i xs]\<rparr>
               = s\<lparr>heap := (heap s)[x := column (bwd_pair h q) w m i xs]\<rparr>"
      by (simp add: s1_def)
    finally have "bwd_loop_i h n q x m index (i + 2 * m) s1 =
       Inr (s\<lparr>heap := (heap s)[x := column (bwd_pair h q) w m i xs]\<rparr>)" .
    then show ?thesis
      using True "1.prems"(6) body by (subst bwd_loop_i.simps) (simp add: w_def xs_def)
  qed
qed

lemma bwd_loop_j_eq:
  assumes "poly_at n x s" and "poly_at n W_rev s" and "x \<noteq> W_rev" and "0 \<le> index" and "index < int n"
    and "0 < m" and "(2 * m) dvd n" and "step \<le> n" and "j \<le> m"
  shows "bwd_loop_j h n q x step m index j s =
     Inr (s\<lparr>heap := (heap s)[x := columns (bwd_pair h q) (advance h n step) (heap s ! W_rev) m j index
                                     (heap s ! x)]\<rparr>)"
  using assms
proof (induction h n q x step m index j s rule: bwd_loop_j.induct)
  case (1 h n q x step m index j s)
  define tw where "tw = heap s ! W_rev"
  define xs where "xs = heap s ! x"
  have len: "length xs = n" and x: "x < length (heap s)"
    using "1.prems"(1) by (simp_all add: poly_at_def xs_def)
  show ?case
  proof (cases "j < m")
    case False
    with "1.prems"(9) have "j = m" by simp
    then have "columns (bwd_pair h q) (advance h n step) tw m j index xs = xs"
      using "1.prems"(6) by (simp add: columns_done)
    with False x show ?thesis
      by (simp add: bwd_loop_j.simps tw_def xs_def)
  next
    case True
    define ys where "ys = column (bwd_pair h q) (tw ! nat index) m j xs"
    define s1 where "s1 = s\<lparr>heap := (heap s)[x := ys]\<rparr>"
    have "j mod (2 * m) < m"
      using True by simp
    then have inner: "bwd_loop_i h n q x m index j s = Inr s1"
      using "1.prems" bwd_loop_i_eq [of n x s index m j h q]
      by (simp add: s1_def ys_def tw_def xs_def)
    have oc1: "only_changes x s s1"
      unfolding s1_def by (intro only_changes_update) (simp add: ys_def xs_def)
    have s1_x: "heap s1 ! x = ys" and s1_W: "heap s1 ! W_rev = tw"
      using x "1.prems"(3) by (simp_all add: s1_def tw_def)
    define index' where "index' = mod_js h (index + (int n - int step)) (int n)"
    have adv: "index' = advance h n step index"
      by (simp add: index'_def advance_def)
    have "0 < n"
      using "1.prems" by (auto elim: dvdE)
    then have idx: "0 \<le> index'" "index' < int n"
      unfolding adv using "1.prems" advance_range [of n step index h] by simp_all
    have "bwd_loop_j h n q x step m index' (j + 1) s1 =
       Inr (s1\<lparr>heap := (heap s1)[x := columns (bwd_pair h q) (advance h n step) (heap s1 ! W_rev) m
                                        (j + 1) index' (heap s1 ! x)]\<rparr>)"
      unfolding index'_def using "1.prems" True idx
      by (intro "1.IH") (auto simp: poly_at_only_changes [OF oc1] index'_def)
    also have "columns (bwd_pair h q) (advance h n step) (heap s1 ! W_rev) m (j + 1) index' (heap s1 ! x)
               = columns (bwd_pair h q) (advance h n step) tw m j index xs"
      unfolding s1_x s1_W ys_def adv
      using True "1.prems"(7) len by (intro columns_step) auto
    also have "s1\<lparr>heap := (heap s1)[x := columns (bwd_pair h q) (advance h n step) tw m j index xs]\<rparr>
               = s\<lparr>heap := (heap s)[x := columns (bwd_pair h q) (advance h n step) tw m j index xs]\<rparr>"
      by (simp add: s1_def)
    finally have "bwd_loop_j h n q x step m index' (j + 1) s1 =
       Inr (s\<lparr>heap := (heap s)[x := columns (bwd_pair h q) (advance h n step) tw m j index xs]\<rparr>)" .
    then show ?thesis
      using True inner
      by (subst bwd_loop_j.simps) (simp add: tw_def xs_def index'_def)
  qed
qed

lemma bwd_loop_m_eq:
  assumes "poly_at (2 ^ k) x s" and "poly_at (2 ^ k) W_rev s" and "x \<noteq> W_rev" and "e + d = k"
    and "step \<le> 2 ^ k"
  shows "bwd_loop_m h (2 ^ k) q x step (2 ^ e) s =
     Inr (s\<lparr>heap := (heap s)[x := bwd_stages h (2 ^ k) q (heap s ! W_rev) step (2 ^ e) (heap s ! x)]\<rparr>)"
  using assms
proof (induction d arbitrary: e step s)
  case 0
  then have "e = k" by simp
  then show ?case
    using "0.prems"(1) by (simp add: bwd_loop_m.simps bwd_stages.simps poly_at_def)
next
  case (Suc d)
  define tw where "tw = heap s ! W_rev"
  define ys where "ys = bwd_stage h (2 ^ k) q tw step (2 ^ e) (heap s ! x)"
  define s1 where "s1 = s\<lparr>heap := (heap s)[x := ys]\<rparr>"
  have x: "x < length (heap s)"
    using Suc.prems(1) by (simp add: poly_at_def)
  from Suc.prems have ek: "e < k" by simp
  then have lt: "(2::nat) ^ e < 2 ^ k" by simp
  have "(2::nat) ^ Suc e dvd 2 ^ k"
    using ek by (intro le_imp_power_dvd) simp
  then have dvd: "2 * 2 ^ e dvd (2::nat) ^ k" by simp
  have cols: "bwd_loop_j h (2 ^ k) q x step (2 ^ e) 0 0 s = Inr s1"
    using Suc.prems dvd bwd_loop_j_eq [of "2 ^ k" x s 0 "2 ^ e" step 0 h q]
    by (simp add: s1_def ys_def bwd_stage_def tw_def)
  have oc1: "only_changes x s s1"
    unfolding s1_def using Suc.prems(1)
    by (intro only_changes_update) (simp add: ys_def bwd_stage_def)
  have s1_x: "heap s1 ! x = ys" and s1_W: "heap s1 ! W_rev = tw"
    using x Suc.prems(3) by (simp_all add: s1_def tw_def)
  have "bwd_loop_m h (2 ^ k) q x (step div 2) (2 ^ Suc e) s1 =
     Inr (s1\<lparr>heap := (heap s1)[x := bwd_stages h (2 ^ k) q (heap s1 ! W_rev) (step div 2) (2 ^ Suc e) (heap s1 ! x)]\<rparr>)"
    using Suc.prems by (intro Suc.IH) (auto simp: poly_at_only_changes [OF oc1])
  also have "bwd_stages h (2 ^ k) q (heap s1 ! W_rev) (step div 2) (2 ^ Suc e) (heap s1 ! x)
             = bwd_stages h (2 ^ k) q tw step (2 ^ e) (heap s ! x)"
    unfolding s1_x s1_W ys_def using lt by (subst (2) bwd_stages.simps) simp
  also have "s1\<lparr>heap := (heap s1)[x := bwd_stages h (2 ^ k) q tw step (2 ^ e) (heap s ! x)]\<rparr>
             = s\<lparr>heap := (heap s)[x := bwd_stages h (2 ^ k) q tw step (2 ^ e) (heap s ! x)]\<rparr>"
    by (simp add: s1_def)
  finally have "bwd_loop_m h (2 ^ k) q x (step div 2) (2 ^ Suc e) s1 =
     Inr (s\<lparr>heap := (heap s)[x := bwd_stages h (2 ^ k) q tw step (2 ^ e) (heap s ! x)]\<rparr>)" .
  then show ?case
    using cols lt by (subst bwd_loop_m.simps) (simp add: tw_def)
qed

lemma fftBackward_eq:
  assumes "poly_at (2 ^ k) x s" and "poly_at (2 ^ k) W_rev s" and "x \<noteq> W_rev"
  shows "fftBackward h (2 ^ k) q x s =
     Inr (s\<lparr>heap := (heap s)[x := backward_poly h (2 ^ k) q (heap s ! W_rev) (heap s ! x)]\<rparr>)"
proof -
  have "bwd_loop_m h (2 ^ k) q x (2 ^ k div 2) (2 ^ 0) s =
     Inr (s\<lparr>heap := (heap s)[x := bwd_stages h (2 ^ k) q (heap s ! W_rev) (2 ^ k div 2) (2 ^ 0) (heap s ! x)]\<rparr>)"
    using assms by (intro bwd_loop_m_eq [where d = k]) auto
  then show ?thesis
    by (simp add: fftBackward_def backward_poly_def)
qed

section \<open>Worked inputs: constant polynomials\<close>

lemma length_head_block [simp]: "length (head_block n t v) = n"
  by (simp add: head_block_def)

lemma head_block_nth: "p < n \<Longrightarrow> head_block n t v ! p = (if p < t then v else 0)"
  by (simp add: head_block_def)

lemma head_block_all: "n \<le> t \<Longrightarrow> head_block n t v = replicate n v"
  by (rule nth_equalityI) (simp_all add: head_block_nth)

lemma head_block_one: "0 < n \<Longrightarrow> head_block n (Suc 0) v = v # replicate (n - Suc 0) 0"
  by (rule nth_equalityI) (auto simp: head_block_nth nth_Cons')

lemma stage_nth:
  assumes "0 < m" and "p < length xs"
  shows "columns bf adv tw m 0 0 xs ! p =
     (if p mod (2 * m) < m
      then fst (bf (xs ! p) (xs ! (p + m)) (tw ! nat ((adv ^^ (p mod (2 * m))) 0)))
      else snd (bf (xs ! (p - m)) (xs ! p) (tw ! nat ((adv ^^ (p mod (2 * m) - m)) 0))))"
  using assms by (simp add: columns_def)

lemma zero_helpers [simp]:
  "addMod h 0 0 q = 0" "subMod h v v q = 0" "mulMod h 0 w q = 0"
  by (cases h; simp add: js_rem_def)+

lemma small_helpers:
  assumes "0 \<le> v" and "v < q"
  shows "addMod h v 0 q = v" and "subMod h v 0 q = v"
  using assms by (cases h; simp add: js_rem_nonneg mod_js_Native)+

lemma double_helper:
  assumes "0 \<le> v" and "2 * v < q"
  shows "addMod h v v q = 2 * v"
  using assms by (cases h; simp add: js_rem_nonneg mod_js_Native)+

lemma not_in_first_block:
  fixes p m :: nat
  assumes "p mod (2 * m) < m" and "m \<le> p"
  shows "2 * m \<le> p"
proof (rule ccontr)
  assume "\<not> 2 * m \<le> p"
  then have "p mod (2 * m) = p" by simp
  with assms show False by simp
qed

lemma beyond_first_block:
  fixes p m :: nat
  assumes "m \<le> p mod (2 * m)" and "2 * m \<le> p"
  shows "3 * m \<le> p"
proof (cases "m = 0")
  case True
  then show ?thesis by simp
next
  case False
  then have "0 < p div (2 * m)"
    using assms(2) by (simp add: div_greater_zero_iff)
  then have "2 * m * 1 \<le> 2 * m * (p div (2 * m))"
    by (intro mult_le_mono2) simp
  moreover have "p = 2 * m * (p div (2 * m)) + p mod (2 * m)"
    by simp
  ultimately show ?thesis
    using assms(1) by linarith
qed

lemma fwd_stage_head_block:
  assumes "(2 * m) dvd n" and "0 < m"
  shows "fwd_stage h n q tw step m (head_block n (2 * m) v) = head_block n m (addMod h v v q)"
proof (rule nth_equalityI)
  show "length (fwd_stage h n q tw step m (head_block n (2 * m) v))
        = length (head_block n m (addMod h v v q))"
    by (simp add: fwd_stage_def)
next
  fix p
  assume "p < length (fwd_stage h n q tw step m (head_block n (2 * m) v))"
  then have p: "p < n" by (simp add: fwd_stage_def)
  show "fwd_stage h n q tw step m (head_block n (2 * m) v) ! p = head_block n m (addMod h v v q) ! p"
  proof (cases "p mod (2 * m) < m")
    case True
    with assms p have pm: "p + m < n" by (intro pair_in_range) auto
    show ?thesis
    proof (cases "p < m")
      case True
      then show ?thesis
        using p pm assms(2) \<open>p mod (2 * m) < m\<close>
        by (simp add: fwd_stage_def stage_nth head_block_nth fwd_pair_def)
    next
      case False
      with True have "2 * m \<le> p" by (intro not_in_first_block) auto
      then show ?thesis
        using p pm assms(2) True False
        by (simp add: fwd_stage_def stage_nth head_block_nth fwd_pair_def)
    qed
  next
    case False
    then have mp: "m \<le> p"
      using mod_less_eq_dividend [of p "2 * m"] by linarith
    show ?thesis
    proof (cases "p < 2 * m")
      case True
      with mp have "p - m < m" "p - m < 2 * m" by simp_all
      then show ?thesis
        using p assms(2) False mp True
        by (simp add: fwd_stage_def stage_nth head_block_nth fwd_pair_def)
    next
      case False
      with \<open>\<not> p mod (2 * m) < m\<close> have "3 * m \<le> p"
        by (intro beyond_first_block) auto
      then have "\<not> p - m < 2 * m" "\<not> p < 2 * m" "\<not> p < m" by linarith+
      then show ?thesis
        using p assms(2) \<open>\<not> p mod (2 * m) < m\<close>
        by (simp add: fwd_stage_def stage_nth head_block_nth fwd_pair_def)
    qed
  qed
qed

lemma bwd_stage_head_block:
  assumes "(2 * m) dvd n" and "0 < m" and "0 \<le> v" and "v < q"
  shows "bwd_stage h n q tw step m (head_block n m v) = head_block n (2 * m) v"
proof (rule nth_equalityI)
  show "length (bwd_stage h n q tw step m (head_block n m v)) = length (head_block n (2 * m) v)"
    by (simp add: bwd_stage_def)
next
  fix p
  assume "p < length (bwd_stage h n q tw step m (head_block n m v))"
  then have p: "p < n" by (simp add: bwd_stage_def)
  note small = small_helpers [OF assms(3,4)]
  show "bwd_stage h n q tw step m (head_block n m v) ! p = head_block n (2 * m) v ! p"
  proof (cases "p mod (2 * m) < m")
    case True
    with assms p have pm: "p + m < n" by (intro pair_in_range) auto
    show ?thesis
    proof (cases "p < m")
      case True
      then show ?thesis
        using p pm assms(2) \<open>p mod (2 * m) < m\<close> small
        by (simp add: bwd_stage_def stage_nth head_block_nth bwd_pair_def)
    next
      case False
      with True have "2 * m \<le> p" by (intro not_in_first_block) auto
      then show ?thesis
        using p pm assms(2) True False
        by (simp add: bwd_stage_def stage_nth head_block_nth bwd_pair_def)
    qed
  next
    case False
    then have mp: "m \<le> p"
      using mod_less_eq_dividend [of p "2 * m"] by linarith
    show ?thesis
    proof (cases "p < 2 * m")
      case True
      with mp have "p - m < m" by simp
      then show ?thesis
        using p assms(2) False mp small True
        by (simp add: bwd_stage_def stage_nth head_block_nth bwd_pair_def)
    next
      case False
      with \<open>\<not> p mod (2 * m) < m\<close> have "3 * m \<le> p"
        by (intro beyond_first_block) auto
      then have "\<not> p - m < m" "\<not> p < 2 * m" "\<not> p < m" by linarith+
      then show ?thesis
        using p assms(2) \<open>\<not> p mod (2 * m) < m\<close>
        by (simp add: bwd_stage_def stage_nth head_block_nth bwd_pair_def)
    qed
  qed
qed

lemma fwd_stages_head_block:
  assumes "e < k" and "0 \<le> v" and "2 ^ Suc e * v < q"
  shows "fwd_stages h (2 ^ k) q tw step (2 ^ e) (head_block (2 ^ k) (2 * 2 ^ e) v)
         = head_block (2 ^ k) 1 (2 ^ Suc e * v)"
  using assms
proof (induction e arbitrary: v step)
  case 0
  have "2 dvd (2::nat) ^ k"
    using "0.prems"(1) by simp
  then have "fwd_stage h (2 ^ k) q tw step 1 (head_block (2 ^ k) (2 * 1) v)
             = head_block (2 ^ k) 1 (addMod h v v q)"
    by (intro fwd_stage_head_block) auto
  moreover have "addMod h v v q = 2 * v"
    using "0.prems" by (intro double_helper) auto
  ultimately show ?case
    by (simp add: fwd_stages.simps [of _ _ _ _ _ "Suc 0"] fwd_stages.simps [of _ _ _ _ _ 0])
next
  case (Suc e)
  have "(2::nat) ^ Suc (Suc e) dvd 2 ^ k"
    using Suc.prems(1) by (intro le_imp_power_dvd) simp
  then have "fwd_stage h (2 ^ k) q tw step (2 ^ Suc e) (head_block (2 ^ k) (2 * 2 ^ Suc e) v)
             = head_block (2 ^ k) (2 ^ Suc e) (addMod h v v q)"
    by (intro fwd_stage_head_block) auto
  moreover have "(2::int) ^ 1 \<le> 2 ^ Suc (Suc e)"
    by (intro power_increasing) auto
  then have "2 * v \<le> 2 ^ Suc (Suc e) * v"
    using Suc.prems(2) by (intro mult_right_mono) auto
  then have "2 * v < q"
    using Suc.prems(3) by (rule le_less_trans)
  then have "addMod h v v q = 2 * v"
    using Suc.prems(2) by (intro double_helper)
  moreover have "fwd_stages h (2 ^ k) q tw (2 * step) (2 ^ e) (head_block (2 ^ k) (2 * 2 ^ e) (2 * v))
                 = head_block (2 ^ k) 1 (2 ^ Suc e * (2 * v))"
    using Suc.prems by (intro Suc.IH) auto
  ultimately show ?case
    by (subst fwd_stages.simps) (simp add: mult.assoc)
qed

lemma forward_poly_constant:
  assumes "0 \<le> v" and "2 ^ k * v < q"
  shows "forward_poly h (2 ^ k) q tw (replicate (2 ^ k) v) = (2 ^ k * v) # replicate (2 ^ k - 1) 0"
proof (cases k)
  case 0
  then show ?thesis
    by (simp add: forward_poly_def fwd_stages.simps)
next
  case (Suc e)
  have "fwd_stages h (2 ^ k) q tw 1 (2 ^ e) (head_block (2 ^ k) (2 * 2 ^ e) v)
        = head_block (2 ^ k) 1 (2 ^ Suc e * v)"
    using assms Suc by (intro fwd_stages_head_block) auto
  moreover have "head_block (2 ^ k) (2 * 2 ^ e) v = replicate (2 ^ k) v"
    using Suc by (intro head_block_all) simp
  moreover have "(2::nat) ^ k div 2 = 2 ^ e"
    using Suc by simp
  ultimately show ?thesis
    using Suc by (simp add: forward_poly_def head_block_one)
qed

lemma bwd_stages_head_block:
  assumes "e + d = k" and "0 \<le> v" and "v < q"
  shows "bwd_stages h (2 ^ k) q tw step (2 ^ e) (head_block (2 ^ k) (2 ^ e) v) = replicate (2 ^ k) v"
  using assms
proof (induction d arbitrary: e step)
  case 0
  then have "e = k" by simp
  then show ?case
    by (simp add: bwd_stages.simps head_block_all)
next
  case (Suc d)
  then have ek: "e < k" by simp
  then have lt: "(2::nat) ^ e < 2 ^ k" by simp
  have "(2::nat) ^ Suc e dvd 2 ^ k"
    using ek by (intro le_imp_power_dvd) simp
  then have "bwd_stage h (2 ^ k) q tw step (2 ^ e) (head_block (2 ^ k) (2 ^ e) v)
             = head_block (2 ^ k) (2 * 2 ^ e) v"
    using Suc.prems by (intro bwd_stage_head_block) auto
  moreover have "bwd_stages h (2 ^ k) q tw (step div 2) (2 ^ Suc e) (head_block (2 ^ k) (2 ^ Suc e) v)
                 = replicate (2 ^ k) v"
    using Suc.prems by (intro Suc.IH) auto
  ultimately show ?case
    using lt by (subst bwd_stages.simps) simp
qed

lemma backward_poly_head:
  assumes "0 \<le> v" and "v < q"
  shows "backward_poly h (2 ^ k) q tw (v # replicate (2 ^ k - 1) 0) = replicate (2 ^ k) v"
proof -
  have "bwd_stages h (2 ^ k) q tw (2 ^ k div 2) (2 ^ 0) (head_block (2 ^ k) (2 ^ 0) v)
        = replicate (2 ^ k) v"
    using assms by (intro bwd_stages_head_block [where d = k]) auto
  then show ?thesis
    by (simp add: backward_poly_def head_block_one)
qed

section \<open>Worked inputs: a single coefficient, with the big-integer helpers\<close>

lemma length_fwd_stage [simp]: "length (fwd_stage h n q tw step m xs) = length xs"
  by (simp add: fwd_stage_def)

lemma length_bwd_stage [simp]: "length (bwd_stage h n q tw step m xs) = length xs"
  by (simp add: bwd_stage_def)

lemma fwd_stage_nth:
  assumes "0 < m" and "p < length xs"
  shows "fwd_stage h n q tw step m xs ! p =
     (if p mod (2 * m) < m then addMod h (xs ! p) (xs ! (p + m)) q
      else mulMod h (subMod h (xs ! (p - m)) (xs ! p) q)
             (tw ! nat ((advance h n step ^^ (p mod (2 * m) - m)) 0)) q)"
  using assms by (simp add: fwd_stage_def stage_nth fwd_pair_def)

lemma fwd_stage_supported:
  assumes len: "length xs = n" and dvd: "(2 * m) dvd n" and m: "0 < m"
    and sup: "supported (2 * m) xs"
  shows "supported m (fwd_stage h n q tw step m xs)"
  unfolding supported_def
proof (intro allI impI)
  fix p
  assume "p < length (fwd_stage h n q tw step m xs)" and nd: "\<not> m dvd p"
  then have p: "p < length xs" by simp
  have here: "xs ! p = 0"
  proof -
    have "\<not> (2 * m) dvd p"
      using nd dvd_trans [of m "2 * m" p] by auto
    with sup p show ?thesis by (simp add: supported_def)
  qed
  show "fwd_stage h n q tw step m xs ! p = 0"
  proof (cases "p mod (2 * m) < m")
    case True
    with dvd p len have pm: "p + m < length xs"
      by (intro pair_in_range [of m n p, folded len]) auto
    have "\<not> (2 * m) dvd (p + m)"
    proof
      assume "(2 * m) dvd (p + m)"
      then have "m dvd (p + m)" by (rule dvd_trans [rotated]) simp
      then have "m dvd p" by (simp add: dvd_add_left_iff)
      with nd show False by simp
    qed
    with sup pm have "xs ! (p + m) = 0" by (simp add: supported_def)
    with here True show ?thesis
      using m p by (simp add: fwd_stage_nth)
  next
    case False
    then have mp: "m \<le> p"
      using mod_less_eq_dividend [of p "2 * m"] by linarith
    have "\<not> (2 * m) dvd (p - m)"
    proof
      assume "(2 * m) dvd (p - m)"
      then have "m dvd (p - m)" by (rule dvd_trans [rotated]) simp
      then have "m dvd (p - m + m)" by (simp add: dvd_add_left_iff)
      with mp nd show False by simp
    qed
    moreover have "p - m < length xs" using p by simp
    ultimately have "xs ! (p - m) = 0"
      using sup by (simp add: supported_def)
    with here False show ?thesis
      using m p by (simp add: fwd_stage_nth)
  qed
qed

lemma fwd_stage_keeps_minus_one:
  assumes len: "length xs = n" and dvd: "(2 * m) dvd n" and m: "0 < m"
    and sup: "supported (2 * m) xs" and t: "t < n" "(2 * m) dvd t" and v: "xs ! t = - 1"
    and q: "1 < q"
  shows "fwd_stage BigInteger n q tw step m xs ! t = - 1"
proof -
  from t(2) have r: "t mod (2 * m) = 0" by simp
  with m have lo: "t mod (2 * m) < m" by simp
  with dvd t(1) have tm: "t + m < length xs"
    unfolding len by (intro pair_in_range) auto
  have "\<not> (2 * m) dvd (t + m)"
  proof
    assume "(2 * m) dvd (t + m)"
    with t(2) have "(2 * m) dvd m" by (simp add: dvd_add_right_iff)
    with m show False by (auto dest: dvd_imp_le)
  qed
  with sup tm have "xs ! (t + m) = 0" by (simp add: supported_def)
  with v lo show ?thesis
    using m t(1) len q by (simp add: fwd_stage_nth js_rem_def)
qed

lemma fwd_stages_keeps_minus_one:
  assumes "length xs = 2 ^ k" and "supported (2 * 2 ^ e) xs" and "t < 2 ^ k" and "(2 * 2 ^ e) dvd t"
    and "xs ! t = - 1" and "1 < q" and "e < k"
  shows "fwd_stages BigInteger (2 ^ k) q tw step (2 ^ e) xs ! t = - 1"
  using assms
proof (induction e arbitrary: xs step)
  case 0
  have "2 dvd (2::nat) ^ k"
    using "0.prems"(7) by simp
  then have "fwd_stage BigInteger (2 ^ k) q tw step 1 xs ! t = - 1"
    using "0.prems" by (intro fwd_stage_keeps_minus_one) auto
  then show ?case
    by (simp add: fwd_stages.simps [of _ _ _ _ _ "Suc 0"] fwd_stages.simps [of _ _ _ _ _ 0])
next
  case (Suc e)
  define ys where "ys = fwd_stage BigInteger (2 ^ k) q tw step (2 ^ Suc e) xs"
  have "(2::nat) ^ Suc (Suc e) dvd 2 ^ k"
    using Suc.prems(7) by (intro le_imp_power_dvd) simp
  then have dvd: "2 * 2 ^ Suc e dvd (2::nat) ^ k" by simp
  have a: "ys ! t = - 1"
    unfolding ys_def using Suc.prems dvd by (intro fwd_stage_keeps_minus_one) auto
  have b: "supported (2 * 2 ^ e) ys"
    using fwd_stage_supported [of xs "2 ^ k" "2 ^ Suc e" BigInteger q tw step] Suc.prems dvd
    by (simp add: ys_def)
  have c: "(2 * 2 ^ e) dvd t"
    using Suc.prems(4) dvd_trans [of "2 * 2 ^ e" "2 * 2 ^ Suc e" t] by simp
  have "fwd_stages BigInteger (2 ^ k) q tw (2 * step) (2 ^ e) ys ! t = - 1"
    using Suc.prems a b c by (intro Suc.IH) (auto simp: ys_def)
  then show ?case
    by (subst fwd_stages.simps) (simp add: ys_def)
qed

lemma fwd_stage_spike:
  assumes q: "1 < q" and tw: "tw ! 0 = 1" and m: "0 < m"
  shows "fwd_stage BigInteger (2 * m) q tw step m ((replicate (2 * m) 0)[m := 1]) ! m = - 1
         \<and> supported m (fwd_stage BigInteger (2 * m) q tw step m ((replicate (2 * m) 0)[m := 1]))"
proof
  define xs :: "int list" where "xs = (replicate (2 * m) 0)[m := 1]"
  have len: "length xs = 2 * m" by (simp add: xs_def)
  have at: "xs ! p = (if p = m then 1 else 0)" if "p < 2 * m" for p
    using that m by (simp add: xs_def nth_list_update)
  have "m mod (2 * m) = m" using m by simp
  then show "fwd_stage BigInteger (2 * m) q tw step m ((replicate (2 * m) 0)[m := 1]) ! m = - 1"
    using m q tw at [of 0] at [of m] len
    by (simp add: fwd_stage_nth js_rem_def flip: xs_def)
  show "supported m (fwd_stage BigInteger (2 * m) q tw step m ((replicate (2 * m) 0)[m := 1]))"
    unfolding supported_def xs_def [symmetric]
  proof (intro allI impI)
    fix p
    assume "p < length (fwd_stage BigInteger (2 * m) q tw step m xs)" and nd: "\<not> m dvd p"
    then have p: "p < 2 * m" by (simp add: len)
    from nd have p0: "p \<noteq> 0" and pm: "p \<noteq> m"
      by (auto intro: ccontr)
    have pmod: "p mod (2 * m) = p" using p by simp
    show "fwd_stage BigInteger (2 * m) q tw step m xs ! p = 0"
    proof (cases "p < m")
      case True
      then have "xs ! p = 0" "xs ! (p + m) = 0"
        using at [of p] at [of "p + m"] p0 by simp_all
      then show ?thesis
        using True m p len pmod by (simp add: fwd_stage_nth)
    next
      case False
      then have "xs ! p = 0" "xs ! (p - m) = 0"
        using at [of p] at [of "p - m"] p pm by simp_all
      then show ?thesis
        using False m p len pmod by (simp add: fwd_stage_nth)
    qed
  qed
qed

lemma forward_poly_spike:
  assumes "1 < q" and "tw ! 0 = 1"
  shows "forward_poly BigInteger (2 ^ Suc k) q tw ((replicate (2 ^ Suc k) 0)[2 ^ k := 1]) ! (2 ^ k) = - 1"
proof -
  define xs :: "int list" where "xs = (replicate (2 ^ Suc k) 0)[2 ^ k := 1]"
  define ys where "ys = fwd_stage BigInteger (2 ^ Suc k) q tw 1 (2 ^ k) xs"
  have first: "ys ! (2 ^ k) = - 1" "supported (2 ^ k) ys"
    using fwd_stage_spike [of q tw "2 ^ k" 1] assms by (simp_all add: ys_def xs_def)
  have len: "length ys = 2 ^ Suc k"
    by (simp add: ys_def xs_def)
  have "fwd_stages BigInteger (2 ^ Suc k) q tw 1 (2 ^ k) xs ! (2 ^ k) = - 1"
  proof (cases k)
    case 0
    then show ?thesis
      using first(1)
      by (simp add: fwd_stages.simps [of _ _ _ _ _ "Suc 0"] fwd_stages.simps [of _ _ _ _ _ 0] ys_def)
  next
    case (Suc e)
    have "fwd_stages BigInteger (2 ^ Suc k) q tw (2 * 1) (2 ^ e) ys ! (2 ^ k) = - 1"
      using first len assms(1) Suc by (intro fwd_stages_keeps_minus_one) auto
    then show ?thesis
      using Suc by (subst fwd_stages.simps) (simp add: ys_def)
  qed
  then show ?thesis
    by (simp add: forward_poly_def xs_def)
qed

section \<open>A transform changes only its own array\<close>

lemma seq_eq_Inr: "seq r f = Inr b \<longleftrightarrow> (\<exists>a. r = Inr a \<and> f a = Inr b)"
  by (cases r) simp_all

lemma wr_frame: "wr s x i v = Inr s' \<Longrightarrow> only_changes x s s'"
  by (auto simp: wr_def split: if_splits intro!: only_changes_update)

lemma fwd_body_frame: "fwd_body h q x m index i s = Inr s' \<Longrightarrow> only_changes x s s'"
  by (auto simp: fwd_body_def seq_eq_Inr Let_def dest!: wr_frame intro: only_changes_trans)

lemma bwd_body_frame: "bwd_body h q x m index i s = Inr s' \<Longrightarrow> only_changes x s s'"
  by (auto simp: bwd_body_def seq_eq_Inr Let_def dest!: wr_frame intro: only_changes_trans)

lemma fwd_loop_i_frame: "fwd_loop_i h n q x m index i s = Inr s' \<Longrightarrow> only_changes x s s'"
proof (induction h n q x m index i s rule: fwd_loop_i.induct)
  case (1 h n q x m index i s)
  show ?case
  proof (cases "i < n")
    case False
    with "1.prems" show ?thesis
      by (simp add: fwd_loop_i.simps only_changes_refl)
  next
    case True
    with "1.prems" have m: "m \<noteq> 0"
      by (auto simp: fwd_loop_i.simps [of h n q x m index i s] split: if_splits)
    with True "1.prems" obtain s1 where s1: "fwd_body h q x m index i s = Inr s1"
      "fwd_loop_i h n q x m index (i + 2 * m) s1 = Inr s'"
      by (auto simp: fwd_loop_i.simps [of h n q x m index i s] seq_eq_Inr)
    from fwd_body_frame [OF s1(1)] "1.IH" [OF True m s1(2)] show ?thesis
      by (rule only_changes_trans)
  qed
qed

lemma fwd_loop_j_frame: "fwd_loop_j h n q x step m index j s = Inr s' \<Longrightarrow> only_changes x s s'"
proof (induction h n q x step m index j s rule: fwd_loop_j.induct)
  case (1 h n q x step m index j s)
  show ?case
  proof (cases "j < m")
    case False
    with "1.prems" show ?thesis
      by (simp add: fwd_loop_j.simps only_changes_refl)
  next
    case True
    with "1.prems" obtain s1 where s1: "fwd_loop_i h n q x m index j s = Inr s1"
      "fwd_loop_j h n q x step m (mod_js h (index + (int n - int step)) (int n)) (j + 1) s1 = Inr s'"
      by (auto simp: fwd_loop_j.simps [of h n q x step m index j s] seq_eq_Inr)
    from fwd_loop_i_frame [OF s1(1)] "1.IH" [OF True s1(2)] show ?thesis
      by (rule only_changes_trans)
  qed
qed

lemma fwd_loop_m_frame: "fwd_loop_m h n q x step m s = Inr s' \<Longrightarrow> only_changes x s s'"
proof (induction h n q x step m s rule: fwd_loop_m.induct)
  case (1 h n q x step m s)
  show ?case
  proof (cases "1 \<le> m")
    case False
    with "1.prems" show ?thesis
      by (simp add: fwd_loop_m.simps only_changes_refl)
  next
    case True
    with "1.prems" obtain s1 where s1: "fwd_loop_j h n q x step m 0 0 s = Inr s1"
      "fwd_loop_m h n q x (2 * step) (m div 2) s1 = Inr s'"
      by (auto simp: fwd_loop_m.simps [of h n q x step m s] seq_eq_Inr)
    from fwd_loop_j_frame [OF s1(1)] "1.IH" [OF True s1(2)] show ?thesis
      by (rule only_changes_trans)
  qed
qed

lemma fftForward_frame: "fftForward h n q x s = Inr s' \<Longrightarrow> only_changes x s s'"
  unfolding fftForward_def by (rule fwd_loop_m_frame)

lemma bwd_loop_i_frame: "bwd_loop_i h n q x m index i s = Inr s' \<Longrightarrow> only_changes x s s'"
proof (induction h n q x m index i s rule: bwd_loop_i.induct)
  case (1 h n q x m index i s)
  show ?case
  proof (cases "i < n")
    case False
    with "1.prems" show ?thesis
      by (simp add: bwd_loop_i.simps only_changes_refl)
  next
    case True
    with "1.prems" have m: "m \<noteq> 0"
      by (auto simp: bwd_loop_i.simps [of h n q x m index i s] split: if_splits)
    with True "1.prems" obtain s1 where s1: "bwd_body h q x m index i s = Inr s1"
      "bwd_loop_i h n q x m index (i + 2 * m) s1 = Inr s'"
      by (auto simp: bwd_loop_i.simps [of h n q x m index i s] seq_eq_Inr)
    from bwd_body_frame [OF s1(1)] "1.IH" [OF True m s1(2)] show ?thesis
      by (rule only_changes_trans)
  qed
qed

lemma bwd_loop_j_frame: "bwd_loop_j h n q x step m index j s = Inr s' \<Longrightarrow> only_changes x s s'"
proof (induction h n q x step m index j s rule: bwd_loop_j.induct)
  case (1 h n q x step m index j s)
  show ?case
  proof (cases "j < m")
    case False
    with "1.prems" show ?thesis
      by (simp add: bwd_loop_j.simps only_changes_refl)
  next
    case True
    with "1.prems" obtain s1 where s1: "bwd_loop_i h n q x m index j s = Inr s1"
      "bwd_loop_j h n q x step m (mod_js h (index + (int n - int step)) (int n)) (j + 1) s1 = Inr s'"
      by (auto simp: bwd_loop_j.simps [of h n q x step m index j s] seq_eq_Inr)
    from bwd_loop_i_frame [OF s1(1)] "1.IH" [OF True s1(2)] show ?thesis
      by (rule only_changes_trans)
  qed
qed

lemma bwd_loop_m_frame: "bwd_loop_m h n q x step m s = Inr s' \<Longrightarrow> only_changes x s s'"
proof (induction h n q x step m s rule: bwd_loop_m.induct)
  case (1 h n q x step m s)
  show ?case
  proof (cases "m < n")
    case False
    with "1.prems" show ?thesis
      by (simp add: bwd_loop_m.simps only_changes_refl)
  next
    case True
    with "1.prems" have m: "m \<noteq> 0"
      by (auto simp: bwd_loop_m.simps [of h n q x step m s] split: if_splits)
    with True "1.prems" obtain s1 where s1: "bwd_loop_j h n q x step m 0 0 s = Inr s1"
      "bwd_loop_m h n q x (step div 2) (2 * m) s1 = Inr s'"
      by (auto simp: bwd_loop_m.simps [of h n q x step m s] seq_eq_Inr)
    from bwd_loop_j_frame [OF s1(1)] "1.IH" [OF True m s1(2)] show ?thesis
      by (rule only_changes_trans)
  qed
qed

lemma fftBackward_frame: "fftBackward h n q x s = Inr s' \<Longrightarrow> only_changes x s s'"
  unfolding fftBackward_def by (rule bwd_loop_m_frame)

section \<open>The exchange operations on well-formed stores\<close>

lemma keeps_arrays_nth: "keeps_arrays s s' \<Longrightarrow> a < length (heap s) \<Longrightarrow> heap s' ! a = heap s ! a"
  unfolding keeps_arrays_def by (metis nth_take)

lemma keeps_arrays_append: "heap s' = heap s @ ys \<Longrightarrow> keeps_arrays s s'"
  by (simp add: keeps_arrays_def)

lemma length_fwd_stages [simp]: "length (fwd_stages h n q tw step m xs) = length xs"
proof (induction h n q tw step m xs rule: fwd_stages.induct)
  case (1 h n q tw step m xs)
  then show ?case
    by (subst fwd_stages.simps) simp
qed

lemma length_bwd_stages [simp]: "length (bwd_stages h n q tw step m xs) = length xs"
proof (induction h n q tw step m xs rule: bwd_stages.induct)
  case (1 h n q tw step m xs)
  then show ?case
    by (subst bwd_stages.simps) simp
qed

lemma length_forward_poly [simp]: "length (forward_poly h n q tw xs) = length xs"
  by (simp add: forward_poly_def)

lemma length_backward_poly [simp]: "length (backward_poly h n q tw xs) = length xs"
  by (simp add: backward_poly_def)

lemma sample_slice_forward:
  assumes "poly_at (2 ^ k) W s"
  shows "(case sample rnd (2 ^ k) s of (r, s1) \<Rightarrow>
            seq (slice r s1) (\<lambda>(c, s2). seq (fftForward h (2 ^ k) q c s2) (f r c)))
         = f (length (heap s)) (Suc (length (heap s)))
             (s\<lparr>drawn := drawn s + 2 ^ k, heap := heap s @ [map (\<lambda>j. rnd (drawn s + j)) [0..<2 ^ k],
                                  forward_poly h (2 ^ k) q (heap s ! W)
                                    (map (\<lambda>j. rnd (drawn s + j)) [0..<2 ^ k])]\<rparr>)"
proof -
  define xs where "xs = map (\<lambda>j. rnd (drawn s + j)) [0..<2 ^ k]"
  define s2 where "s2 = s\<lparr>drawn := drawn s + 2 ^ k, heap := heap s @ [xs, xs]\<rparr>"
  define c where "c = Suc (length (heap s))"
  have W: "W < length (heap s)"
    using assms by (simp add: poly_at_def)
  have "poly_at (2 ^ k) c s2"
    by (simp add: poly_at_def s2_def c_def xs_def nth_append)
  moreover have "poly_at (2 ^ k) W s2"
    using assms W by (simp add: poly_at_def s2_def nth_append)
  moreover have "c \<noteq> W"
    using W by (simp add: c_def)
  ultimately have "fftForward h (2 ^ k) q c s2 =
     Inr (s2\<lparr>heap := (heap s2)[c := forward_poly h (2 ^ k) q (heap s2 ! W) (heap s2 ! c)]\<rparr>)"
    by (rule fftForward_eq)
  moreover have "heap s2 ! W = heap s ! W" "heap s2 ! c = xs"
    using W by (simp_all add: s2_def c_def nth_append)
  moreover have "(heap s2)[c := ys] = heap s @ [xs, ys]" for ys
    by (simp add: s2_def c_def list_update_append)
  ultimately have "fftForward h (2 ^ k) q c s2 =
     Inr (s2\<lparr>heap := heap s @ [xs, forward_poly h (2 ^ k) q (heap s ! W) xs]\<rparr>)"
    by simp
  then show ?thesis
    by (simp add: sample_def alloc_def slice_def s2_def c_def xs_def)
qed

lemma generateKeyPair_eq:
  assumes "poly_at (2 ^ k) W s"
  shows "generateKeyPair h rnd (2 ^ k) q s =
     Inr ((length (heap s), Suc (length (heap s))),
          s\<lparr>drawn := drawn s + 2 ^ k, heap := heap s @ [map (\<lambda>j. rnd (drawn s + j)) [0..<2 ^ k],
                               forward_poly h (2 ^ k) q (heap s ! W)
                                 (map (\<lambda>j. rnd (drawn s + j)) [0..<2 ^ k])]\<rparr>)"
  unfolding generateKeyPair_def by (subst sample_slice_forward [OF assms]) simp

lemma map_mulMod_eq:
  assumes "poly_at n a s" and "poly_at n b s"
  shows "map_mulMod h q a b s =
     Inr (length (heap s),
          s\<lparr>heap := heap s @ [map (\<lambda>i. mulMod h (heap s ! a ! i) (heap s ! b ! i) q) [0..<n]]\<rparr>)"
  using assms by (simp add: map_mulMod_def alloc_def poly_at_def)

lemma encapsulate_eq:
  assumes "poly_at (2 ^ k) W s" and "poly_at (2 ^ k) publicKey s"
  shows "encapsulate h rnd (2 ^ k) q publicKey s =
     Inr ((Suc (length (heap s)), Suc (Suc (length (heap s)))),
          s\<lparr>drawn := drawn s + 2 ^ k,
            heap := heap s @ [map (\<lambda>j. rnd (drawn s + j)) [0..<2 ^ k],
                               forward_poly h (2 ^ k) q (heap s ! W)
                                 (map (\<lambda>j. rnd (drawn s + j)) [0..<2 ^ k]),
                               map (\<lambda>i. mulMod h (rnd (drawn s + i)) (heap s ! publicKey ! i) q)
                                 [0..<2 ^ k]]\<rparr>)"
proof -
  define xs where "xs = map (\<lambda>j. rnd (drawn s + j)) [0..<2 ^ k]"
  define ys where "ys = forward_poly h (2 ^ k) q (heap s ! W) xs"
  define s3 where "s3 = s\<lparr>drawn := drawn s + 2 ^ k, heap := heap s @ [xs, ys]\<rparr>"
  have pk: "publicKey < length (heap s)"
    using assms(2) by (simp add: poly_at_def)
  have "poly_at (2 ^ k) (length (heap s)) s3"
    by (simp add: poly_at_def s3_def xs_def nth_append)
  moreover have "poly_at (2 ^ k) publicKey s3"
    using assms(2) by (simp add: poly_at_def s3_def nth_append)
  ultimately have "map_mulMod h q (length (heap s)) publicKey s3 =
     Inr (length (heap s3), s3\<lparr>heap := heap s3 @
        [map (\<lambda>i. mulMod h (heap s3 ! length (heap s) ! i) (heap s3 ! publicKey ! i) q) [0..<2 ^ k]]\<rparr>)"
    by (rule map_mulMod_eq)
  moreover have "heap s3 ! length (heap s) = xs" "heap s3 ! publicKey = heap s ! publicKey"
    using pk by (simp_all add: s3_def nth_append)
  moreover have "map (\<lambda>i. mulMod h (xs ! i) (heap s ! publicKey ! i) q) [0..<2 ^ k]
                 = map (\<lambda>i. mulMod h (rnd (drawn s + i)) (heap s ! publicKey ! i) q) [0..<2 ^ k]"
    by (simp add: xs_def)
  ultimately have "map_mulMod h q (length (heap s)) publicKey s3 =
     Inr (Suc (Suc (length (heap s))), s3\<lparr>heap := heap s3 @
        [map (\<lambda>i. mulMod h (rnd (drawn s + i)) (heap s ! publicKey ! i) q) [0..<2 ^ k]]\<rparr>)"
    by (simp add: s3_def)
  then show ?thesis
    unfolding encapsulate_def
    by (subst sample_slice_forward [OF assms(1)]) (simp add: s3_def xs_def ys_def)
qed

lemma decapsulate_eq:
  assumes "poly_at (2 ^ k) W_rev s" and "poly_at (2 ^ k) ciphertext s" and "poly_at (2 ^ k) privateKey s"
  shows "decapsulate h (2 ^ k) q ciphertext privateKey s =
     Inr (length (heap s),
          s\<lparr>heap := heap s @ [backward_poly h (2 ^ k) q (heap s ! W_rev)
             (map (\<lambda>i. mulMod h (heap s ! ciphertext ! i) (heap s ! privateKey ! i) q) [0..<2 ^ k])]\<rparr>)"
proof -
  define xs where "xs = map (\<lambda>i. mulMod h (heap s ! ciphertext ! i) (heap s ! privateKey ! i) q) [0..<2 ^ k]"
  define s1 where "s1 = s\<lparr>heap := heap s @ [xs]\<rparr>"
  define a where "a = length (heap s)"
  have W: "W_rev < length (heap s)"
    using assms(1) by (simp add: poly_at_def)
  have mm: "map_mulMod h q ciphertext privateKey s = Inr (a, s1)"
    using map_mulMod_eq [OF assms(2,3)] by (simp add: a_def s1_def xs_def)
  have "poly_at (2 ^ k) a s1"
    by (simp add: poly_at_def s1_def a_def xs_def)
  moreover have "poly_at (2 ^ k) W_rev s1"
    using assms(1) W by (simp add: poly_at_def s1_def nth_append)
  moreover have "a \<noteq> W_rev"
    using W by (simp add: a_def)
  ultimately have "fftBackward h (2 ^ k) q a s1 =
     Inr (s1\<lparr>heap := (heap s1)[a := backward_poly h (2 ^ k) q (heap s1 ! W_rev) (heap s1 ! a)]\<rparr>)"
    by (rule fftBackward_eq)
  moreover have "heap s1 ! W_rev = heap s ! W_rev" "heap s1 ! a = xs"
    using W by (simp_all add: s1_def a_def nth_append)
  moreover have "(heap s1)[a := ys] = heap s @ [ys]" for ys
    by (simp add: s1_def a_def)
  ultimately have "fftBackward h (2 ^ k) q a s1 =
     Inr (s1\<lparr>heap := heap s @ [backward_poly h (2 ^ k) q (heap s ! W_rev) xs]\<rparr>)"
    by simp
  then show ?thesis
    using mm by (simp add: decapsulate_def s1_def xs_def a_def)
qed

section \<open>The exchange operations only add arrays\<close>

lemma keeps_arrays_refl: "keeps_arrays s s"
  by (simp add: keeps_arrays_def)

lemma keeps_arrays_trans:
  assumes "keeps_arrays s s1" and "keeps_arrays s1 s2"
  shows "keeps_arrays s s2"
proof -
  have le: "length (heap s) \<le> length (heap s1)" "length (heap s1) \<le> length (heap s2)"
    using assms by (simp_all add: keeps_arrays_def)
  have "take (length (heap s)) (heap s2)
        = take (length (heap s)) (take (length (heap s1)) (heap s2))"
    using le by (simp add: min_def)
  also have "\<dots> = heap s"
    using assms by (simp add: keeps_arrays_def)
  finally show ?thesis
    using le by (simp add: keeps_arrays_def)
qed

lemma keeps_arrays_only_changes:
  assumes "only_changes x s s'" and "length (heap s0) \<le> x" and "keeps_arrays s0 s"
  shows "keeps_arrays s0 s'"
proof -
  from assms(1) obtain xs where "heap s' = (heap s)[x := xs]"
    unfolding only_changes_def by auto
  with assms(2,3) show ?thesis
    by (simp add: keeps_arrays_def)
qed

lemma generateKeyPair_frame:
  assumes "generateKeyPair h rnd n q s = Inr ((privateKey, publicKey), s')"
  shows "keeps_arrays s s' \<and> privateKey = length (heap s) \<and> publicKey = Suc (length (heap s))
         \<and> drawn s' = drawn s + n"
proof -
  define xs where "xs = map (\<lambda>k. rnd (drawn s + k)) [0..<n]"
  define s2 where "s2 = s\<lparr>drawn := drawn s + n, heap := heap s @ [xs, xs]\<rparr>"
  from assms have fwd: "fftForward h n q (Suc (length (heap s))) s2 = Inr s'"
    and ids: "privateKey = length (heap s)" "publicKey = Suc (length (heap s))"
    by (auto simp: generateKeyPair_def sample_def alloc_def slice_def seq_eq_Inr s2_def xs_def)
  have "keeps_arrays s s2"
    by (rule keeps_arrays_append [of _ _ "[xs, xs]"]) (simp add: s2_def)
  with fftForward_frame [OF fwd] have "keeps_arrays s s'"
    by (intro keeps_arrays_only_changes [of "Suc (length (heap s))" s2 s' s]) auto
  moreover have "drawn s' = drawn s + n"
    using only_changes_drawn [OF fftForward_frame [OF fwd]] by (simp add: s2_def)
  ultimately show ?thesis
    using ids by simp
qed

lemma map_mulMod_frame:
  assumes "map_mulMod h q a b s = Inr (c, s')"
  shows "keeps_arrays s s' \<and> c = length (heap s) \<and> drawn s' = drawn s"
  using assms
  by (auto simp: map_mulMod_def alloc_def split: if_splits intro: keeps_arrays_append)

lemma encapsulate_frame:
  assumes "encapsulate h rnd n q publicKey s = Inr ((ciphertext, sharedSecret), s')"
  shows "keeps_arrays s s' \<and> ciphertext = Suc (length (heap s))
         \<and> sharedSecret = Suc (Suc (length (heap s))) \<and> drawn s' = drawn s + n"
proof -
  define xs where "xs = map (\<lambda>k. rnd (drawn s + k)) [0..<n]"
  define s2 where "s2 = s\<lparr>drawn := drawn s + n, heap := heap s @ [xs, xs]\<rparr>"
  from assms obtain s3 where fwd: "fftForward h n q (Suc (length (heap s))) s2 = Inr s3"
    and mm: "map_mulMod h q (length (heap s)) publicKey s3 = Inr (sharedSecret, s')"
    and ct: "ciphertext = Suc (length (heap s))"
    by (auto simp: encapsulate_def sample_def alloc_def slice_def seq_eq_Inr s2_def xs_def)
  note oc = fftForward_frame [OF fwd]
  have "keeps_arrays s s2"
    by (rule keeps_arrays_append [of _ _ "[xs, xs]"]) (simp add: s2_def)
  with oc have k3: "keeps_arrays s s3"
    by (intro keeps_arrays_only_changes [of "Suc (length (heap s))" s2 s3 s]) auto
  have len3: "length (heap s3) = Suc (Suc (length (heap s)))"
    using only_changes_length [OF oc] by (simp add: s2_def)
  have d3: "drawn s3 = drawn s + n"
    using only_changes_drawn [OF oc] by (simp add: s2_def)
  from map_mulMod_frame [OF mm] k3 len3 d3 ct show ?thesis
    by (auto intro: keeps_arrays_trans)
qed

lemma decapsulate_frame:
  assumes "decapsulate h n q ciphertext privateKey s = Inr (sharedSecret, s')"
  shows "keeps_arrays s s' \<and> sharedSecret = length (heap s) \<and> drawn s' = drawn s"
proof -
  from assms obtain s1 where mm: "map_mulMod h q ciphertext privateKey s = Inr (sharedSecret, s1)"
    and bwd: "fftBackward h n q sharedSecret s1 = Inr s'"
    by (auto simp: decapsulate_def seq_eq_Inr)
  note a = map_mulMod_frame [OF mm]
  note oc = fftBackward_frame [OF bwd]
  have "keeps_arrays s s'"
    using oc a by (intro keeps_arrays_only_changes [of sharedSecret s1 s' s]) auto
  with a only_changes_drawn [OF oc] show ?thesis
    by simp
qed

section \<open>Key generation\<close>

lemma startup_poly_at: "poly_at n W (startup n q)" "poly_at n W_rev (startup n q)"
  by (simp_all add: poly_at_def startup_def W_def W_rev_def)

lemma startup_W:
  assumes "0 < q"
  shows "heap (startup n q) ! W = map (\<lambda>i. (int i + 1) mod q) [0..<n]"
  using assms by (simp add: startup_def W_def js_rem_nonneg)

lemma startup_W_rev:
  assumes "0 < q" and "int n \<le> q"
  shows "heap (startup n q) ! W_rev = map (\<lambda>i. (q - int i - 1) mod q) [0..<n]"
  using assms by (simp add: startup_def W_rev_def js_rem_nonneg)

lemma rlwe_n_power: "rlwe_n = 2 ^ 10"
  by (simp add: rlwe_n_def)

text \<open>
  C5. \<^verbatim>\<open>generateKeyPair\<close> always returns. The private key it returns is the array of the \<open>n\<close>
  numbers drawn, unchanged by the transform; the public key is another array, and it is
  what \<^verbatim>\<open>fftForward\<close> leaves in an array that starts as a copy of the private key (running
  \<^verbatim>\<open>fftForward\<close> on the final state with the public key reset to that copy gives the final
  state again). No array that existed before is changed.
\<close>

theorem generateKeyPair_public_is_forward_of_private:
  assumes "poly_at rlwe_n W s"
  shows "\<exists>privateKey publicKey s'.
     generateKeyPair h rnd rlwe_n rlwe_q s = Inr ((privateKey, publicKey), s')
     \<and> privateKey \<noteq> publicKey
     \<and> heap s' ! privateKey = map (\<lambda>k. rnd (drawn s + k)) [0..<rlwe_n]
     \<and> fftForward h rlwe_n rlwe_q publicKey
          (s'\<lparr>heap := (heap s')[publicKey := heap s' ! privateKey]\<rparr>) = Inr s'
     \<and> heap s' ! publicKey = forward_poly h rlwe_n rlwe_q (heap s ! W) (heap s' ! privateKey)
     \<and> keeps_arrays s s'"
proof -
  define xs where "xs = map (\<lambda>k. rnd (drawn s + k)) [0..<rlwe_n]"
  define ys where "ys = forward_poly h rlwe_n rlwe_q (heap s ! W) xs"
  define sk where "sk = length (heap s)"
  define pk where "pk = Suc (length (heap s))"
  define s' where "s' = s\<lparr>drawn := drawn s + rlwe_n, heap := heap s @ [xs, ys]\<rparr>"
  define s2 where "s2 = s'\<lparr>heap := (heap s')[pk := heap s' ! sk]\<rparr>"
  have W: "W < length (heap s)"
    using assms by (simp add: poly_at_def)
  have gen: "generateKeyPair h rnd rlwe_n rlwe_q s = Inr ((sk, pk), s')"
    using generateKeyPair_eq [of 10 s h rnd rlwe_q] assms
    by (simp add: rlwe_n_power sk_def pk_def s'_def xs_def ys_def)
  have at: "heap s' ! sk = xs" "heap s' ! pk = ys"
    by (simp_all add: s'_def sk_def pk_def nth_append)
  have s2: "s2 = s\<lparr>drawn := drawn s + rlwe_n, heap := heap s @ [xs, xs]\<rparr>"
    by (simp add: s2_def s'_def sk_def pk_def nth_append list_update_append)
  have "poly_at (2 ^ 10) pk s2"
    by (simp add: s2 poly_at_def pk_def nth_append xs_def rlwe_n_power)
  moreover have "poly_at (2 ^ 10) W s2"
    using assms W by (simp add: s2 poly_at_def nth_append rlwe_n_power)
  moreover have "pk \<noteq> W"
    using W by (simp add: pk_def)
  ultimately have "fftForward h (2 ^ 10) rlwe_q pk s2 =
     Inr (s2\<lparr>heap := (heap s2)[pk := forward_poly h (2 ^ 10) rlwe_q (heap s2 ! W) (heap s2 ! pk)]\<rparr>)"
    by (rule fftForward_eq)
  moreover have "heap s2 ! W = heap s ! W" "heap s2 ! pk = xs"
    using W by (simp_all add: s2 pk_def nth_append)
  moreover have "s2\<lparr>heap := (heap s2)[pk := ys]\<rparr> = s'"
    by (simp add: s2 s'_def pk_def list_update_append)
  ultimately have fwd: "fftForward h rlwe_n rlwe_q pk s2 = Inr s'"
    by (simp add: rlwe_n_power ys_def)
  have "keeps_arrays s s'"
    by (rule keeps_arrays_append [of _ _ "[xs, ys]"]) (simp add: s'_def)
  with gen at fwd show ?thesis
    unfolding s2_def xs_def [symmetric] by (intro exI [of _ sk] exI [of _ pk] exI [of _ s'])
      (simp add: sk_def pk_def ys_def)
qed

theorem generateKeyPair_public_is_forward_of_private_witness:
  "poly_at rlwe_n W (startup rlwe_n rlwe_q)
   \<and> (\<exists>privateKey publicKey s'.
     generateKeyPair BigInteger (\<lambda>k. 7) rlwe_n rlwe_q (startup rlwe_n rlwe_q)
       = Inr ((privateKey, publicKey), s')
     \<and> privateKey \<noteq> publicKey
     \<and> heap s' ! privateKey = map (\<lambda>k. 7) [0..<rlwe_n]
     \<and> fftForward BigInteger rlwe_n rlwe_q publicKey
          (s'\<lparr>heap := (heap s')[publicKey := heap s' ! privateKey]\<rparr>) = Inr s')"
proof -
  have a: "poly_at rlwe_n W (startup rlwe_n rlwe_q)"
    by (rule startup_poly_at)
  from generateKeyPair_public_is_forward_of_private [OF a, of BigInteger "\<lambda>k. 7"] a
  show ?thesis by blast
qed

section \<open>Twiddle tables and decapsulation\<close>

lemma keeps_arrays_tables:
  assumes "keeps_arrays s s'" and "W_rev < length (heap s)"
  shows "tables_kept s s'"
proof -
  from assms(2) have "W < length (heap s)"
    by (auto simp: W_def W_rev_def)
  with assms show ?thesis
    by (simp add: tables_kept_def keeps_arrays_nth)
qed

lemma only_changes_tables:
  assumes "only_changes x s s'" and "x \<noteq> W" and "x \<noteq> W_rev"
  shows "tables_kept s s'"
  using assms by (simp add: tables_kept_def only_changes_other)

text \<open>
  C7. After start-up the table \<open>W\<close> has length \<open>n\<close> and holds \<open>(i + 1) mod q\<close> at \<open>i\<close>, the
  table \<open>W_rev\<close> holds \<open>(q - i - 1) mod q\<close>. Whenever one of the three exchange operations
  returns, or a transform applied to any array other than the tables, both tables have
  the contents they had before.
\<close>

theorem twiddle_tables:
  assumes "W_rev < length (heap s)"
  shows "heap (startup rlwe_n rlwe_q) ! W = map (\<lambda>i. (int i + 1) mod rlwe_q) [0..<rlwe_n]
     \<and> heap (startup rlwe_n rlwe_q) ! W_rev = map (\<lambda>i. (rlwe_q - int i - 1) mod rlwe_q) [0..<rlwe_n]
     \<and> (generateKeyPair h rnd rlwe_n rlwe_q s = Inr (keys, s1) \<longrightarrow> tables_kept s s1)
     \<and> (encapsulate h rnd rlwe_n rlwe_q publicKey s = Inr (sent, s2) \<longrightarrow> tables_kept s s2)
     \<and> (decapsulate h rlwe_n rlwe_q ciphertext privateKey s = Inr (sharedSecret, s3)
          \<longrightarrow> tables_kept s s3)
     \<and> (x \<noteq> W \<and> x \<noteq> W_rev \<and> fftForward h rlwe_n rlwe_q x s = Inr s4 \<longrightarrow> tables_kept s s4)
     \<and> (x \<noteq> W \<and> x \<noteq> W_rev \<and> fftBackward h rlwe_n rlwe_q x s = Inr s5 \<longrightarrow> tables_kept s s5)"
proof -
  have q: "0 < rlwe_q" "int rlwe_n \<le> rlwe_q"
    by (simp_all add: rlwe_q_def rlwe_n_def)
  have a: "heap (startup rlwe_n rlwe_q) ! W = map (\<lambda>i. (int i + 1) mod rlwe_q) [0..<rlwe_n]"
    using q(1) by (rule startup_W)
  have b: "heap (startup rlwe_n rlwe_q) ! W_rev
           = map (\<lambda>i. (rlwe_q - int i - 1) mod rlwe_q) [0..<rlwe_n]"
    using q by (rule startup_W_rev)
  have c: "tables_kept s s1" if "generateKeyPair h rnd rlwe_n rlwe_q s = Inr (keys, s1)"
  proof -
    from that have "generateKeyPair h rnd rlwe_n rlwe_q s = Inr ((fst keys, snd keys), s1)"
      by simp
    from generateKeyPair_frame [OF this] assms show ?thesis
      by (simp add: keeps_arrays_tables)
  qed
  have d: "tables_kept s s2" if "encapsulate h rnd rlwe_n rlwe_q publicKey s = Inr (sent, s2)"
  proof -
    from that have "encapsulate h rnd rlwe_n rlwe_q publicKey s = Inr ((fst sent, snd sent), s2)"
      by simp
    from encapsulate_frame [OF this] assms show ?thesis
      by (simp add: keeps_arrays_tables)
  qed
  have e: "tables_kept s s3"
    if "decapsulate h rlwe_n rlwe_q ciphertext privateKey s = Inr (sharedSecret, s3)"
    using decapsulate_frame [OF that] assms by (simp add: keeps_arrays_tables)
  have f: "tables_kept s s4" if "x \<noteq> W" "x \<noteq> W_rev" "fftForward h rlwe_n rlwe_q x s = Inr s4"
    using fftForward_frame [OF that(3)] that(1,2) by (rule only_changes_tables)
  have g: "tables_kept s s5" if "x \<noteq> W" "x \<noteq> W_rev" "fftBackward h rlwe_n rlwe_q x s = Inr s5"
    using fftBackward_frame [OF that(3)] that(1,2) by (rule only_changes_tables)
  from a b c d e f g show ?thesis
    by blast
qed

theorem twiddle_tables_witness:
  "W_rev < length (heap (startup rlwe_n rlwe_q))
   \<and> heap (startup rlwe_n rlwe_q) ! W = map (\<lambda>i. (int i + 1) mod rlwe_q) [0..<rlwe_n]
   \<and> (\<exists>keys s1. generateKeyPair Native (\<lambda>k. 7) rlwe_n rlwe_q (startup rlwe_n rlwe_q) = Inr (keys, s1)
        \<and> tables_kept (startup rlwe_n rlwe_q) s1)"
proof -
  have a: "W_rev < length (heap (startup rlwe_n rlwe_q))"
    by (simp add: startup_def W_rev_def)
  obtain keys s1 where
    gen: "generateKeyPair Native (\<lambda>k. 7) rlwe_n rlwe_q (startup rlwe_n rlwe_q) = Inr (keys, s1)"
    using generateKeyPair_eq [of 10 "startup rlwe_n rlwe_q" Native "\<lambda>k. 7" rlwe_q]
      startup_poly_at(1) [of rlwe_n rlwe_q]
    by (simp add: rlwe_n_power)
  from twiddle_tables [OF a, of Native "\<lambda>k. 7" keys s1] gen a show ?thesis
    by blast
qed

text \<open>
  C9. On arrays of length \<open>n\<close>, \<^verbatim>\<open>decapsulate\<close> returns a new array (its address is none of
  the addresses in use before). The caller's \<open>ciphertext\<close> and \<open>privateKey\<close> arrays, like
  every other array that existed before, hold afterwards what they held before.
\<close>

theorem decapsulate_leaves_inputs:
  assumes "poly_at rlwe_n W_rev s" and "poly_at rlwe_n ciphertext s" and "poly_at rlwe_n privateKey s"
  shows "\<exists>sharedSecret s'.
     decapsulate h rlwe_n rlwe_q ciphertext privateKey s = Inr (sharedSecret, s')
     \<and> sharedSecret = length (heap s)
     \<and> sharedSecret \<noteq> ciphertext \<and> sharedSecret \<noteq> privateKey
     \<and> heap s' ! ciphertext = heap s ! ciphertext
     \<and> heap s' ! privateKey = heap s ! privateKey
     \<and> keeps_arrays s s'"
proof -
  obtain sharedSecret s' where
    dec: "decapsulate h rlwe_n rlwe_q ciphertext privateKey s = Inr (sharedSecret, s')"
    using decapsulate_eq [of 10 s ciphertext privateKey h rlwe_q] assms
    by (simp add: rlwe_n_power)
  note fr = decapsulate_frame [OF dec]
  have lt: "ciphertext < length (heap s)" "privateKey < length (heap s)"
    using assms by (simp_all add: poly_at_def)
  with fr have "heap s' ! ciphertext = heap s ! ciphertext" "heap s' ! privateKey = heap s ! privateKey"
    by (simp_all add: keeps_arrays_nth)
  with dec fr lt show ?thesis
    by auto
qed

theorem decapsulate_leaves_inputs_witness:
  "poly_at rlwe_n 2 (snd (alloc (replicate rlwe_n 5) (snd (alloc (replicate rlwe_n 3) (startup rlwe_n rlwe_q)))))
   \<and> poly_at rlwe_n 3 (snd (alloc (replicate rlwe_n 5) (snd (alloc (replicate rlwe_n 3) (startup rlwe_n rlwe_q)))))
   \<and> (\<exists>sharedSecret s'.
     decapsulate Native rlwe_n rlwe_q 3 2
       (snd (alloc (replicate rlwe_n 5) (snd (alloc (replicate rlwe_n 3) (startup rlwe_n rlwe_q)))))
       = Inr (sharedSecret, s')
     \<and> sharedSecret = 4
     \<and> heap s' ! 3 = replicate rlwe_n 5
     \<and> heap s' ! 2 = replicate rlwe_n 3)"
proof -
  let ?s = "snd (alloc (replicate rlwe_n 5) (snd (alloc (replicate rlwe_n 3) (startup rlwe_n rlwe_q))))"
  have a: "poly_at rlwe_n W_rev ?s" "poly_at rlwe_n 3 ?s" "poly_at rlwe_n 2 ?s"
    by (simp_all add: poly_at_def alloc_def startup_def W_rev_def)
  have b: "length (heap ?s) = 4" "heap ?s ! 3 = replicate rlwe_n 5" "heap ?s ! 2 = replicate rlwe_n 3"
    by (simp_all add: alloc_def startup_def)
  from decapsulate_leaves_inputs [OF a, of Native] a b show ?thesis
    by auto
qed

section \<open>The exchange with all draws equal to one\<close>

lemma mulMod_one:
  assumes "0 \<le> c" and "c < q"
  shows "mulMod h 1 c q = c" and "mulMod h c 1 q = c"
  using assms by (cases h; simp add: js_rem_nonneg mod_js_Native)+

lemma mulMod_zero_right [simp]: "mulMod h v 0 q = 0"
  by (cases h) (simp_all add: js_rem_def)

lemma head_times_ones:
  assumes "0 \<le> c" and "c < q" and "0 < n"
  shows "map (\<lambda>i. mulMod h 1 ((c # replicate (n - 1) 0) ! i) q) [0..<n] = c # replicate (n - 1) 0"
    and "map (\<lambda>i. mulMod h ((c # replicate (n - 1) 0) ! i) (replicate n 1 ! i) q) [0..<n]
         = c # replicate (n - 1) 0"
proof -
  show "map (\<lambda>i. mulMod h 1 ((c # replicate (n - 1) 0) ! i) q) [0..<n] = c # replicate (n - 1) 0"
    using assms by (intro nth_equalityI) (auto simp: nth_Cons' mulMod_one)
  show "map (\<lambda>i. mulMod h ((c # replicate (n - 1) 0) ! i) (replicate n 1 ! i) q) [0..<n]
         = c # replicate (n - 1) 0"
    using assms by (intro nth_equalityI) (auto simp: nth_Cons' mulMod_one)
qed

lemma roundtrip_constant:
  assumes x: "poly_at (2 ^ k) x s" and tabs: "poly_at (2 ^ k) W s" "poly_at (2 ^ k) W_rev s"
    and ne: "x \<noteq> W" "x \<noteq> W_rev" and xs: "heap s ! x = replicate (2 ^ k) v"
    and v: "0 \<le> v" "2 ^ k * v < q"
  shows "fftForward h (2 ^ k) q x s
         = Inr (s\<lparr>heap := (heap s)[x := (2 ^ k * v) # replicate (2 ^ k - 1) 0]\<rparr>)"
    and "fftBackward h (2 ^ k) q x (s\<lparr>heap := (heap s)[x := (2 ^ k * v) # replicate (2 ^ k - 1) 0]\<rparr>)
         = Inr (s\<lparr>heap := (heap s)[x := replicate (2 ^ k) (2 ^ k * v)]\<rparr>)"
proof -
  define e where "e = (2 ^ k * v) # replicate (2 ^ k - 1) 0"
  define s1 where "s1 = s\<lparr>heap := (heap s)[x := e]\<rparr>"
  have lt: "x < length (heap s)"
    using x by (simp add: poly_at_def)
  have "forward_poly h (2 ^ k) q (heap s ! W) (heap s ! x) = e"
    unfolding xs e_def using v by (rule forward_poly_constant)
  with fftForward_eq [OF x tabs(1) ne(1), of h q]
  show "fftForward h (2 ^ k) q x s
         = Inr (s\<lparr>heap := (heap s)[x := (2 ^ k * v) # replicate (2 ^ k - 1) 0]\<rparr>)"
    by (simp add: e_def)
  have oc: "only_changes x s s1"
    unfolding s1_def using x by (intro only_changes_update) (simp add: e_def poly_at_def)
  have p1: "poly_at (2 ^ k) x s1" "poly_at (2 ^ k) W_rev s1"
    using x tabs(2) by (simp_all add: poly_at_only_changes [OF oc])
  have "0 \<le> 2 ^ k * v"
    using v(1) by simp
  then have "backward_poly h (2 ^ k) q (heap s1 ! W_rev) e = replicate (2 ^ k) (2 ^ k * v)"
    unfolding e_def using v(2) by (rule backward_poly_head)
  moreover have "heap s1 ! x = e"
    using lt by (simp add: s1_def)
  ultimately have "fftBackward h (2 ^ k) q x s1
     = Inr (s1\<lparr>heap := (heap s1)[x := replicate (2 ^ k) (2 ^ k * v)]\<rparr>)"
    using fftBackward_eq [OF p1 ne(2), of h q] by simp
  then show "fftBackward h (2 ^ k) q x (s\<lparr>heap := (heap s)[x := (2 ^ k * v) # replicate (2 ^ k - 1) 0]\<rparr>)
         = Inr (s\<lparr>heap := (heap s)[x := replicate (2 ^ k) (2 ^ k * v)]\<rparr>)"
    by (simp add: s1_def e_def)
qed

lemma exchange_all_ones:
  assumes tabs: "poly_at (2 ^ k) W s" "poly_at (2 ^ k) W_rev s" and q: "2 ^ k < q"
  defines "a \<equiv> length (heap s)"
  defines "ones \<equiv> replicate (2 ^ k) (1::int)"
  defines "e \<equiv> (2 ^ k :: int) # replicate (2 ^ k - 1) 0"
  defines "s1 \<equiv> s\<lparr>drawn := drawn s + 2 ^ k, heap := heap s @ [ones, e]\<rparr>"
  defines "s2 \<equiv> s\<lparr>drawn := drawn s + 2 ^ k + 2 ^ k, heap := heap s @ [ones, e, ones, e, e]\<rparr>"
  defines "s3 \<equiv> s\<lparr>drawn := drawn s + 2 ^ k + 2 ^ k,
                   heap := heap s @ [ones, e, ones, e, e, replicate (2 ^ k) (2 ^ k)]\<rparr>"
  shows "generateKeyPair h (\<lambda>k. 1) (2 ^ k) q s = Inr ((a, Suc a), s1)"
    and "encapsulate h (\<lambda>k. 1) (2 ^ k) q (Suc a) s1
         = Inr ((Suc (Suc (Suc a)), Suc (Suc (Suc (Suc a)))), s2)"
    and "decapsulate h (2 ^ k) q (Suc (Suc (Suc a))) a s2 = Inr (Suc (Suc (Suc (Suc (Suc a)))), s3)"
proof -
  have map_ones: "map (\<lambda>j. 1::int) [0..<2 ^ k] = ones"
    by (simp add: ones_def map_replicate_const)
  have fwd: "forward_poly h (2 ^ k) q tw ones = e" for tw
    using forward_poly_constant [of 1 k q h tw] q by (simp add: ones_def e_def)
  have W: "W < length (heap s)" "W_rev < length (heap s)"
    using tabs by (simp_all add: poly_at_def)
  show gen: "generateKeyPair h (\<lambda>k. 1) (2 ^ k) q s = Inr ((a, Suc a), s1)"
    using generateKeyPair_eq [OF tabs(1), of h "\<lambda>k. 1" q]
    by (simp add: map_ones fwd a_def s1_def)
  have len1: "length (heap s1) = Suc (Suc a)"
    by (simp add: s1_def a_def)
  have at1: "heap s1 ! Suc a = e" "heap s1 ! W = heap s ! W"
    using W by (simp_all add: s1_def a_def nth_append)
  have p1: "poly_at (2 ^ k) W s1" "poly_at (2 ^ k) (Suc a) s1"
    using tabs(1) W by (simp_all add: poly_at_def s1_def a_def nth_append e_def)
  have prod1: "map (\<lambda>i. mulMod h 1 (e ! i) q) [0..<2 ^ k] = e"
    using head_times_ones(1) [of "2 ^ k" q "2 ^ k" h] q
    by (simp add: e_def)
  show enc: "encapsulate h (\<lambda>k. 1) (2 ^ k) q (Suc a) s1
         = Inr ((Suc (Suc (Suc a)), Suc (Suc (Suc (Suc a)))), s2)"
    using encapsulate_eq [OF p1, of h "\<lambda>k. 1" q]
    by (simp add: map_ones fwd at1 prod1 len1) (simp add: s1_def s2_def)
  have len2: "length (heap s2) = Suc (Suc (Suc (Suc (Suc a))))"
    by (simp add: s2_def a_def)
  have at2: "heap s2 ! Suc (Suc (Suc a)) = e" "heap s2 ! a = ones"
    by (simp_all add: s2_def a_def nth_append)
  have p2: "poly_at (2 ^ k) W_rev s2" "poly_at (2 ^ k) (Suc (Suc (Suc a))) s2" "poly_at (2 ^ k) a s2"
    using tabs(2) W by (simp_all add: poly_at_def s2_def a_def nth_append e_def ones_def)
  have prod2: "map (\<lambda>i. mulMod h (e ! i) (ones ! i) q) [0..<2 ^ k] = e"
    using head_times_ones(2) [of "2 ^ k" q "2 ^ k" h] q
    by (simp add: e_def ones_def)
  have bwd: "backward_poly h (2 ^ k) q tw e = replicate (2 ^ k) (2 ^ k)" for tw
    using backward_poly_head [of "2 ^ k" q h k tw] q by (simp add: e_def)
  show "decapsulate h (2 ^ k) q (Suc (Suc (Suc a))) a s2 = Inr (Suc (Suc (Suc (Suc (Suc a)))), s3)"
    using decapsulate_eq [OF p2, of h q]
    by (simp add: at2 prod2 bwd len2) (simp add: s2_def s3_def)
qed

section \<open>The program at its constants\<close>

lemma in_range_iff: "in_range q xs \<longleftrightarrow> (\<forall>i < length xs. 0 \<le> xs ! i \<and> xs ! i < q)"
  by (simp add: in_range_def list_all_length)

lemma alloc_on_startup:
  assumes "length xs = n"
  shows "poly_at n 2 (snd (alloc xs (startup n q)))"
    and "poly_at n W (snd (alloc xs (startup n q)))"
    and "poly_at n W_rev (snd (alloc xs (startup n q)))"
    and "heap (snd (alloc xs (startup n q))) ! 2 = xs"
    and "2 \<noteq> W" and "2 \<noteq> W_rev"
  using assms by (simp_all add: poly_at_def alloc_def startup_def W_def W_rev_def)

text \<open>
  C2. The polynomial with all \<open>1024\<close> coefficients equal to \<open>1\<close> lies in \<open>[0, q)\<close>.
  \<^verbatim>\<open>fftForward\<close> turns it into \<open>[1024, 0, \<dots>, 0]\<close>, and \<^verbatim>\<open>fftBackward\<close> turns that into the
  polynomial with all coefficients \<open>1024\<close>, not back into the input. This holds in the
  \<^verbatim>\<open>big-integer\<close> copies and in the native copy.
\<close>

theorem roundtrip_fails_on_all_ones:
  "in_range rlwe_q (replicate rlwe_n 1)
   \<and> (\<exists>s1 s2.
        fftForward h rlwe_n rlwe_q 2 (snd (alloc (replicate rlwe_n 1) (startup rlwe_n rlwe_q))) = Inr s1
      \<and> fftBackward h rlwe_n rlwe_q 2 s1 = Inr s2
      \<and> heap s1 ! 2 = 1024 # replicate (rlwe_n - 1) 0
      \<and> heap s2 ! 2 = replicate rlwe_n 1024
      \<and> heap s2 ! 2 \<noteq> replicate rlwe_n 1)"
proof -
  define s where "s = snd (alloc (replicate rlwe_n 1) (startup rlwe_n rlwe_q))"
  define s1 where "s1 = s\<lparr>heap := (heap s)[2 := 1024 # replicate (rlwe_n - 1) 0]\<rparr>"
  define s2 where "s2 = s\<lparr>heap := (heap s)[2 := replicate rlwe_n 1024]\<rparr>"
  have p: "(2::int) ^ 10 * 1 = 1024" "(2::int) ^ 10 * 1 < rlwe_q"
    by (simp_all add: rlwe_q_def)
  have a: "poly_at rlwe_n 2 s" "poly_at rlwe_n W s" "poly_at rlwe_n W_rev s"
    "heap s ! 2 = replicate rlwe_n 1" "2 \<noteq> W" "2 \<noteq> W_rev"
    unfolding s_def by (simp_all add: alloc_on_startup)
  have lt: "2 < length (heap s)"
    using a(1) by (simp add: poly_at_def)
  note a' = a [unfolded rlwe_n_power]
  have "fftForward h (2 ^ 10) rlwe_q 2 s
        = Inr (s\<lparr>heap := (heap s)[2 := (2 ^ 10 * 1) # replicate (2 ^ 10 - 1) 0]\<rparr>)"
    using a' p(2) by (intro roundtrip_constant(1)) simp_all
  then have fwd: "fftForward h rlwe_n rlwe_q 2 s = Inr s1"
    unfolding s1_def rlwe_n_power p(1) .
  have "fftBackward h (2 ^ 10) rlwe_q 2
          (s\<lparr>heap := (heap s)[2 := (2 ^ 10 * 1) # replicate (2 ^ 10 - 1) 0]\<rparr>)
        = Inr (s\<lparr>heap := (heap s)[2 := replicate (2 ^ 10) (2 ^ 10 * 1)]\<rparr>)"
    using a' p(2) by (intro roundtrip_constant(2)) simp_all
  then have bwd: "fftBackward h rlwe_n rlwe_q 2 s1 = Inr s2"
    unfolding s1_def s2_def rlwe_n_power p(1) .
  have r: "in_range rlwe_q (replicate rlwe_n 1)"
    by (simp add: in_range_iff rlwe_q_def)
  have "replicate rlwe_n (1024::int) ! 0 \<noteq> replicate rlwe_n 1 ! 0"
    by (simp add: rlwe_n_def)
  then have ne: "replicate rlwe_n (1024::int) \<noteq> replicate rlwe_n 1"
    by metis
  from fwd bwd r ne lt show ?thesis
    unfolding s_def [symmetric] by (intro conjI exI [of _ s1] exI [of _ s2]) (simp_all add: s1_def s2_def)
qed

text \<open>
  C1. When every random draw is \<open>1\<close> (private key and encapsulation randomness all
  ones), the three operations return, the sender's shared secret is \<open>[1024, 0, \<dots>, 0]\<close>
  and the receiver's is \<open>[1024, 1024, \<dots>, 1024]\<close>: they differ at position \<open>1\<close>.
\<close>

theorem exchange_disagrees_on_all_ones:
  "\<exists>privateKey publicKey s1 ciphertext senderSharedSecret s2 receiverSharedSecret s3.
      generateKeyPair h (\<lambda>k. 1) rlwe_n rlwe_q (startup rlwe_n rlwe_q)
        = Inr ((privateKey, publicKey), s1)
    \<and> encapsulate h (\<lambda>k. 1) rlwe_n rlwe_q publicKey s1
        = Inr ((ciphertext, senderSharedSecret), s2)
    \<and> decapsulate h rlwe_n rlwe_q ciphertext privateKey s2 = Inr (receiverSharedSecret, s3)
    \<and> heap s3 ! senderSharedSecret = 1024 # replicate (rlwe_n - 1) 0
    \<and> heap s3 ! receiverSharedSecret = replicate rlwe_n 1024
    \<and> heap s3 ! senderSharedSecret ! 1 = 0
    \<and> heap s3 ! receiverSharedSecret ! 1 = 1024"
proof -
  define s where "s = startup rlwe_n rlwe_q"
  define ones where "ones = replicate rlwe_n (1::int)"
  define e where "e = (1024::int) # replicate (rlwe_n - 1) 0"
  define s1 where "s1 = s\<lparr>drawn := drawn s + rlwe_n, heap := heap s @ [ones, e]\<rparr>"
  define s2 where "s2 = s\<lparr>drawn := drawn s + rlwe_n + rlwe_n, heap := heap s @ [ones, e, ones, e, e]\<rparr>"
  define s3 where "s3 = s\<lparr>drawn := drawn s + rlwe_n + rlwe_n,
                       heap := heap s @ [ones, e, ones, e, e, replicate rlwe_n 1024]\<rparr>"
  have p: "(2::int) ^ 10 = 1024" "(2::int) ^ 10 < rlwe_q"
    by (simp_all add: rlwe_q_def)
  have tabs: "poly_at (2 ^ 10) W s" "poly_at (2 ^ 10) W_rev s"
    unfolding s_def rlwe_n_power [symmetric] by (rule startup_poly_at)+
  have len: "length (heap s) = 2"
    by (simp add: s_def startup_def)
  note ex = exchange_all_ones [OF tabs p(2), of h, unfolded p(1) len,
      folded rlwe_n_power, folded ones_def e_def, folded s1_def s2_def s3_def]
  have sender: "heap s3 ! Suc (Suc (Suc (Suc 2))) = e"
    and receiver: "heap s3 ! Suc (Suc (Suc (Suc (Suc 2)))) = replicate rlwe_n 1024"
    by (simp_all add: s3_def len nth_append)
  have "1 < rlwe_n"
    by (simp add: rlwe_n_def)
  then have at1: "e ! 1 = 0" "replicate rlwe_n (1024::int) ! 1 = 1024"
    by (simp_all add: e_def)
  show ?thesis
    unfolding s_def [symmetric] e_def [symmetric]
    using ex sender receiver at1 by (metis (no_types))
qed

text \<open>
  C4. In the \<^verbatim>\<open>big-integer\<close> copies, \<^verbatim>\<open>fftForward\<close> applied to the polynomial that is \<open>1\<close> at
  position \<open>512\<close> and \<open>0\<close> elsewhere (all coefficients in \<open>[0, q)\<close>) returns an array with
  \<open>-1\<close> at position \<open>512\<close>, outside \<open>[0, q)\<close>.
\<close>

theorem forward_big_integer_leaves_range:
  "in_range rlwe_q ((replicate rlwe_n 0)[512 := 1])
   \<and> (\<exists>s'. fftForward BigInteger rlwe_n rlwe_q 2
               (snd (alloc ((replicate rlwe_n 0)[512 := 1]) (startup rlwe_n rlwe_q))) = Inr s'
          \<and> heap s' ! 2 ! 512 = - 1
          \<and> \<not> in_range rlwe_q (heap s' ! 2))"
proof -
  define xs :: "int list" where "xs = (replicate rlwe_n 0)[512 := 1]"
  define s where "s = snd (alloc xs (startup rlwe_n rlwe_q))"
  define ys where "ys = forward_poly BigInteger rlwe_n rlwe_q (heap s ! W) xs"
  have len: "length xs = rlwe_n"
    by (simp add: xs_def)
  have a: "poly_at rlwe_n 2 s" "poly_at rlwe_n W s" "heap s ! 2 = xs" "2 \<noteq> W"
    unfolding s_def using len by (simp_all add: alloc_on_startup)
  have n: "512 < rlwe_n" "0 < rlwe_n"
    by (simp_all add: rlwe_n_def)
  have r: "in_range rlwe_q xs"
    using n(1) by (simp add: in_range_iff xs_def rlwe_q_def nth_list_update)
  have fwd: "fftForward BigInteger rlwe_n rlwe_q 2 s = Inr (s\<lparr>heap := (heap s)[2 := ys]\<rparr>)"
    using fftForward_eq [of 10 2 s BigInteger rlwe_q, folded rlwe_n_power] a
    by (simp add: ys_def)
  have tw: "heap s ! W ! 0 = 1"
    using n(2) by (simp add: s_def alloc_def startup_def W_def rlwe_q_def js_rem_def)
  have "forward_poly BigInteger (2 ^ Suc 9) rlwe_q (heap s ! W) ((replicate (2 ^ Suc 9) 0)[2 ^ 9 := 1]) ! (2 ^ 9)
        = - 1"
    using tw by (intro forward_poly_spike) (simp_all add: rlwe_q_def)
  moreover have "(2::nat) ^ Suc 9 = rlwe_n" "(2::nat) ^ 9 = 512"
    by (simp_all add: rlwe_n_def)
  ultimately have at: "ys ! 512 = - 1"
    by (simp add: ys_def xs_def)
  have "length ys = rlwe_n"
    by (simp add: ys_def len)
  then have "\<not> in_range rlwe_q ys"
    using at n(1) by (auto simp: in_range_iff)
  moreover have "heap (s\<lparr>heap := (heap s)[2 := ys]\<rparr>) ! 2 = ys"
    using a(1) by (simp add: poly_at_def)
  ultimately show ?thesis
    using fwd r at unfolding s_def [symmetric] xs_def [symmetric] by auto
qed

section \<open>Entropy\<close>





lemma length_be_bytes [simp]: "length (be_bytes k w) = k"
  by (simp add: be_bytes_def)








section \<open>The native helpers, validation examples and a small exchange\<close>

lemma helpers_closed_native:
  assumes "0 < q"
  shows "0 \<le> mod_js Native x q \<and> mod_js Native x q < q"
    and "0 \<le> addMod Native a b q \<and> addMod Native a b q < q"
    and "0 \<le> subMod Native a b q \<and> subMod Native a b q < q"
    and "0 \<le> mulMod Native a b q \<and> mulMod Native a b q < q"
  using assms by (simp_all add: mod_js_Native del: mod_js.simps)

lemma helpers_closed_big_integer:
  assumes "0 < q" and "0 \<le> a" and "0 \<le> b"
  shows "0 \<le> addMod BigInteger a b q \<and> addMod BigInteger a b q < q"
    and "0 \<le> mulMod BigInteger a b q \<and> mulMod BigInteger a b q < q"
  using assms by (simp_all add: js_rem_nonneg)

lemma fwd_stage_native_in_range:
  assumes "0 < q" and "0 < m"
  shows "in_range q (fwd_stage Native n q tw step m xs)"
  unfolding in_range_iff
  using assms helpers_closed_native(2,4) [OF assms(1)]
  by (simp add: fwd_stage_nth)

lemma bwd_stage_native_in_range:
  assumes "0 < q" and "0 < m"
  shows "in_range q (bwd_stage Native n q tw step m xs)"
  unfolding in_range_iff
  using assms helpers_closed_native(2,3) [OF assms(1)]
  by (simp add: bwd_stage_def stage_nth bwd_pair_def)

lemma fwd_stages_native_in_range:
  assumes "0 < q" and "in_range q xs"
  shows "in_range q (fwd_stages Native n q tw step m xs)"
  using assms
proof (induction Native n q tw step m xs rule: fwd_stages.induct)
  case (1 n q tw step m xs)
  show ?case
  proof (cases "1 \<le> m")
    case True
    then have "in_range q (fwd_stage Native n q tw step m xs)"
      using "1.prems"(1) by (intro fwd_stage_native_in_range) auto
    with True "1.prems"(1) show ?thesis
      by (subst fwd_stages.simps) (simp add: "1.hyps")
  next
    case False
    with "1.prems" show ?thesis
      by (subst fwd_stages.simps) simp
  qed
qed

lemma bwd_stages_native_in_range:
  assumes "0 < q" and "in_range q xs"
  shows "in_range q (bwd_stages Native n q tw step m xs)"
  using assms
proof (induction Native n q tw step m xs rule: bwd_stages.induct)
  case (1 n q tw step m xs)
  show ?case
  proof (cases "m < n \<and> 0 < m")
    case True
    then have "in_range q (bwd_stage Native n q tw step m xs)"
      using "1.prems"(1) by (intro bwd_stage_native_in_range) auto
    with True "1.prems"(1) show ?thesis
      by (subst bwd_stages.simps) (simp add: "1.hyps")
  next
    case False
    with "1.prems" show ?thesis
      by (subst bwd_stages.simps) auto
  qed
qed

lemma native_transforms_keep_range:
  assumes "poly_at rlwe_n x s" and "poly_at rlwe_n W s" and "poly_at rlwe_n W_rev s"
    and "x \<noteq> W" and "x \<noteq> W_rev" and "in_range rlwe_q (heap s ! x)"
  shows "\<exists>s'. fftForward Native rlwe_n rlwe_q x s = Inr s' \<and> in_range rlwe_q (heap s' ! x)"
    and "\<exists>s'. fftBackward Native rlwe_n rlwe_q x s = Inr s' \<and> in_range rlwe_q (heap s' ! x)"
proof -
  have q: "0 < rlwe_q"
    by (simp add: rlwe_q_def)
  have lt: "x < length (heap s)"
    using assms(1) by (simp add: poly_at_def)
  have "in_range rlwe_q (forward_poly Native rlwe_n rlwe_q (heap s ! W) (heap s ! x))"
    unfolding forward_poly_def using q assms(6) by (rule fwd_stages_native_in_range)
  with fftForward_eq [of 10 x s Native rlwe_q, folded rlwe_n_power] assms lt
  show "\<exists>s'. fftForward Native rlwe_n rlwe_q x s = Inr s' \<and> in_range rlwe_q (heap s' ! x)"
    by simp
  have "in_range rlwe_q (backward_poly Native rlwe_n rlwe_q (heap s ! W_rev) (heap s ! x))"
    unfolding backward_poly_def using q assms(6) by (rule bwd_stages_native_in_range)
  with fftBackward_eq [of 10 x s Native rlwe_q, folded rlwe_n_power] assms lt
  show "\<exists>s'. fftBackward Native rlwe_n rlwe_q x s = Inr s' \<and> in_range rlwe_q (heap s' ! x)"
    by simp
qed

lemma validateParameters_examples:
  "validateParameters 1024 40961 = Inr ()"
  "validateParameters 6 17
   = Inl (ParameterInvalid ''Parameter 'n' must be a power of 2 for FFT compatibility.'')"
  "validateParameters 4 9 = Inl (ParameterInvalid ''Parameter 'q' must be a prime number.'')"
  "validateParameters 4 3
   = Inl (ParameterInvalid ''Parameter 'q' must be larger than 'n' to prevent overflow.'')"
  by code_simp+

lemma main_stops_at_invalid_parameters:
  "validateParameters (int n) q = Inl e \<Longrightarrow> main Native rnd n q = Inl e"
  by (simp add: main_def)

lemma small_exchange_disagrees:
  "(case generateKeyPair Native (\<lambda>k. [1, 2, 3, 4, 5, 6, 7, 8] ! k) 4 17 (startup 4 17) of
      Inr ((privateKey, publicKey), s1) \<Rightarrow>
        (case encapsulate Native (\<lambda>k. [1, 2, 3, 4, 5, 6, 7, 8] ! k) 4 17 publicKey s1 of
           Inr ((ciphertext, senderSharedSecret), s2) \<Rightarrow>
             (case decapsulate Native 4 17 ciphertext privateKey s2 of
                Inr (receiverSharedSecret, s3) \<Rightarrow>
                  (heap s3 ! privateKey, heap s3 ! publicKey, heap s3 ! ciphertext,
                   heap s3 ! senderSharedSecret, heap s3 ! receiverSharedSecret)
              | Inl _ \<Rightarrow> ([], [], [], [], []))
         | Inl _ \<Rightarrow> ([], [], [], [], []))
    | Inl _ \<Rightarrow> ([], [], [], [], []))
   = ([1, 2, 3, 4], [10, 15, 7, 6], [9, 15, 7, 6], [16, 5, 15, 14], [16, 12, 10, 15])"
  by code_simp

end
